theory Spec2Isabelle
  imports Main "HOL-Library.Multiset" "HOL-Library.Sublist"
begin

section \<open>The notification engines of Observer.ts\<close>

text \<open>
  The development embeds \<^verbatim>\<open>src/behavioral/observer/Observer.ts\<close>: the classes
  \<^verbatim>\<open>Observable\<close>, \<^verbatim>\<open>EventEmitter\<close>, \<^verbatim>\<open>EventFilter\<close> and \<^verbatim>\<open>AsyncObservable\<close>.
  Observers are objects compared by identity, so an observer is a reference and its
  behaviour is looked up in an environment. A thrown value is an \<open>error\<close>.
\<close>

type_synonym ref = nat

datatype error = Error string

subsection \<open>The built-in Set\<close>

text \<open>
  \<^verbatim>\<open>private observers: Set<Observer<T>> = new Set()\<close>. A JavaScript Set keeps its
  elements in one list, in insertion order. \<^verbatim>\<open>add\<close> appends a value that is not in the
  list, \<^verbatim>\<open>delete\<close> and \<^verbatim>\<open>clear\<close> overwrite elements by an empty marker and never shift
  the others, \<^verbatim>\<open>size\<close> counts the elements that are not empty (ECMA-262, Set objects).
  The list is an \<open>option list\<close>, \<open>None\<close> being the empty marker.
\<close>

definition Set_has :: "'e option list \<Rightarrow> 'e \<Rightarrow> bool" where
  "Set_has S e = (Some e \<in> set S)"

definition Set_add :: "'e \<Rightarrow> 'e option list \<Rightarrow> 'e option list" where
  "Set_add e S = (if Set_has S e then S else S @ [Some e])"

definition Set_delete :: "'e \<Rightarrow> 'e option list \<Rightarrow> 'e option list" where
  "Set_delete e S = map (\<lambda>x. if x = Some e then None else x) S"

definition Set_clear :: "'e option list \<Rightarrow> 'e option list" where
  "Set_clear S = map (\<lambda>x. None) S"

definition Set_values :: "'e option list \<Rightarrow> 'e list" where
  "Set_values S = map the (filter (\<lambda>x. x \<noteq> None) S)"

definition Set_size :: "'e option list \<Rightarrow> nat" where
  "Set_size S = length (Set_values S)"

text \<open>\<^verbatim>\<open>new Set(iterable)\<close> adds the elements of the iterable one by one.\<close>

definition Set_new :: "'e list \<Rightarrow> 'e option list" where
  "Set_new xs = foldl (\<lambda>S e. Set_add e S) [] xs"

text \<open>The elements of a Set are pairwise different.\<close>

definition Set_ok :: "'e option list \<Rightarrow> bool" where
  "Set_ok S = distinct (Set_values S)"

subsection \<open>Observers, the world and what is observed of a run\<close>

text \<open>
  What an observer's callback may do to the subject that notifies it: the three public
  mutators of \<^verbatim>\<open>Observable\<close>. (\<^verbatim>\<open>AsyncObservable\<close> has the first two; emptying it is
  removing each member, which leaves the same list.)
\<close>

datatype subject_call = AddObserver ref | RemoveObserver ref | ClearObservers

text \<open>
  \<^verbatim>\<open>interface Observer<T> { update(data: T): void; getId(): string; }\<close>.
  \<open>getId\<close> is the accessor of the identifier given at construction, as in every
  observer class of the file (\<^verbatim>\<open>return this.id\<close>). \<open>update\<close> gets the data, the part
  of the heap the observers own and the registration set as it stands; it returns the
  new heap, the calls it made on the subject, in order, and the value it threw, if any.
  What it did before it threw stays done. A callback is taken to return or throw, and
  not to notify again the subject that is notifying it.
\<close>

record HasId =
  getId :: string

record ('a, 'u) Observer = HasId +
  update :: "'a \<Rightarrow> 'u \<Rightarrow> ref option list \<Rightarrow> 'u \<times> subject_call list \<times> error option"

text \<open>
  What a run leaves behind for an onlooker: the calls of \<open>update\<close>/\<open>updateAsync\<close> with
  their argument, the settling of an awaited \<open>updateAsync\<close>, and the lines written by
  \<^verbatim>\<open>console.error\<close> and \<^verbatim>\<open>console.log\<close>.
\<close>

datatype 'a event =
    Invoked ref 'a
  | Completed ref "error option"
  | ErrorLine string error
  | LogLine string

text \<open>
  The state the engines run in: \<open>observers\<close> is the private field of that name of the
  notifier at hand, \<open>heap\<close> is all that the observers keep for themselves, \<open>trace\<close> is
  what has been observed so far. No callback can write the trace.
\<close>

record ('a, 'u) world =
  observers :: "ref option list"
  heap :: 'u
  trace :: "'a event list"

text \<open>A call either returns or throws; the state it leaves is kept in both cases.\<close>

datatype 's completion = Normal 's | Throw error 's

primrec state_of :: "'s completion \<Rightarrow> 's" where
  "state_of (Normal s) = s"
| "state_of (Throw e s) = s"

definition try_catch :: "'s completion \<Rightarrow> (error \<Rightarrow> 's \<Rightarrow> 's completion) \<Rightarrow> 's completion" where
  "try_catch body handler = (case body of Normal s \<Rightarrow> Normal s | Throw e s \<Rightarrow> handler e s)"

definition console_error :: "string \<Rightarrow> error \<Rightarrow> ('a, 'u) world \<Rightarrow> ('a, 'u) world completion" where
  "console_error msg e w = Normal (w\<lparr>trace := trace w @ [ErrorLine msg e]\<rparr>)"

definition console_log :: "string \<Rightarrow> ('a, 'u) world \<Rightarrow> ('a, 'u) world" where
  "console_log msg w = w\<lparr>trace := trace w @ [LogLine msg]\<rparr>"

subsection \<open>Observable\<close>

definition addObserver :: "ref \<Rightarrow> ('a, 'u) world \<Rightarrow> ('a, 'u) world" where
  "addObserver observer w = w\<lparr>observers := Set_add observer (observers w)\<rparr>"

definition removeObserver :: "ref \<Rightarrow> ('a, 'u) world \<Rightarrow> ('a, 'u) world" where
  "removeObserver observer w = w\<lparr>observers := Set_delete observer (observers w)\<rparr>"

definition getObserverCount :: "('a, 'u) world \<Rightarrow> nat" where
  "getObserverCount w = Set_size (observers w)"

definition hasObserver :: "('a, 'u) world \<Rightarrow> ref \<Rightarrow> bool" where
  "hasObserver w observer = Set_has (observers w) observer"

definition clearObservers :: "('a, 'u) world \<Rightarrow> ('a, 'u) world" where
  "clearObservers w = w\<lparr>observers := Set_clear (observers w)\<rparr>"

text \<open>The calls an observer makes on its subject run the methods above.\<close>

primrec perform :: "subject_call \<Rightarrow> ('a, 'u) world \<Rightarrow> ('a, 'u) world" where
  "perform (AddObserver r) w = addObserver r w"
| "perform (RemoveObserver r) w = removeObserver r w"
| "perform ClearObservers w = clearObservers w"

definition perform_all :: "subject_call list \<Rightarrow> ('a, 'u) world \<Rightarrow> ('a, 'u) world" where
  "perform_all cs w = foldl (\<lambda>w c. perform c w) w cs"

text \<open>
  \<^verbatim>\<open>Set.prototype.forEach\<close> walks the list by index and reads its length again after
  every call of the callback: an element appended during the walk is visited, an element
  emptied before the walk reaches it is not. The walk over \<^verbatim>\<open>for (const x of set)\<close>
  (the Set iterator) is the same. A walk that never reaches the end of the list has no
  value (\<open>None\<close>). An exception of the callback leaves the walk at once.
\<close>

partial_function (option) Set_forEach ::
  "(ref \<Rightarrow> ('a, 'u) world \<Rightarrow> ('a, 'u) world completion) \<Rightarrow> nat \<Rightarrow> ('a, 'u) world
     \<Rightarrow> ('a, 'u) world completion option" where
  "Set_forEach callbackfn index w =
     (if index < length (observers w) then
        (case observers w ! index of
           None \<Rightarrow> Set_forEach callbackfn (index + 1) w
         | Some e \<Rightarrow>
             (case callbackfn e w of
                Throw err w' \<Rightarrow> Some (Throw err w')
              | Normal w' \<Rightarrow> Set_forEach callbackfn (index + 1) w'))
      else Some (Normal w))"

text \<open>\<^verbatim>\<open>observer.update(data)\<close>: the call is recorded, then its effects take place.\<close>

definition call_update ::
  "(ref \<Rightarrow> ('a, 'u) Observer) \<Rightarrow> 'a \<Rightarrow> ref \<Rightarrow> ('a, 'u) world \<Rightarrow> ('a, 'u) world completion" where
  "call_update env data observer w =
     (case update (env observer) data (heap w) (observers w) of
        (h, calls, thrown) \<Rightarrow>
          (let w' = perform_all calls (w\<lparr>heap := h, trace := trace w @ [Invoked observer data]\<rparr>)
           in case thrown of None \<Rightarrow> Normal w' | Some e \<Rightarrow> Throw e w'))"

text \<open>
  The arrow function of \<^verbatim>\<open>notifyObservers\<close>:
  \<^verbatim>\<open>try { observer.update(data); } catch (error) { console.error(`Error notifying observer ${observer.getId()}:`, error); }\<close>
\<close>

definition notify_callback ::
  "(ref \<Rightarrow> ('a, 'u) Observer) \<Rightarrow> 'a \<Rightarrow> ref \<Rightarrow> ('a, 'u) world \<Rightarrow> ('a, 'u) world completion" where
  "notify_callback env data observer w =
     try_catch (call_update env data observer w)
       (\<lambda>e. console_error (''Error notifying observer '' @ getId (env observer) @ '':'') e)"

definition notifyObservers ::
  "(ref \<Rightarrow> ('a, 'u) Observer) \<Rightarrow> 'a \<Rightarrow> ('a, 'u) world \<Rightarrow> ('a, 'u) world completion option" where
  "notifyObservers env data w = Set_forEach (notify_callback env data) 0 w"

text \<open>
  The walk the specification describes, over a copy of the members taken when the call
  starts: \<^verbatim>\<open>Array.from(set)\<close> is \<open>Set_values\<close>, and \<open>Array_forEach\<close> visits a fixed
  array. \<open>notify_snapshot\<close> is \<open>notifyObservers\<close> with the walk over the copy; the source
  has no such method, the two are compared below.
\<close>

fun Array_forEach :: "(ref \<Rightarrow> 's \<Rightarrow> 's completion) \<Rightarrow> ref list \<Rightarrow> 's \<Rightarrow> 's completion" where
  "Array_forEach callbackfn [] w = Normal w"
| "Array_forEach callbackfn (e # es) w =
     (case callbackfn e w of
        Throw err w' \<Rightarrow> Throw err w'
      | Normal w' \<Rightarrow> Array_forEach callbackfn es w')"

definition notify_snapshot ::
  "(ref \<Rightarrow> ('a, 'u) Observer) \<Rightarrow> 'a \<Rightarrow> ('a, 'u) world \<Rightarrow> ('a, 'u) world completion" where
  "notify_snapshot env data w = Array_forEach (notify_callback env data) (Set_values (observers w)) w"

subsection \<open>AsyncObservable\<close>

definition async_addObserver :: "ref \<Rightarrow> ('a, 'u) world \<Rightarrow> ('a, 'u) world" where
  "async_addObserver observer w = w\<lparr>observers := Set_add observer (observers w)\<rparr>"

definition async_removeObserver :: "ref \<Rightarrow> ('a, 'u) world \<Rightarrow> ('a, 'u) world" where
  "async_removeObserver observer w = w\<lparr>observers := Set_delete observer (observers w)\<rparr>"

text \<open>
  \<^verbatim>\<open>interface AsyncObserver<T> { updateAsync(data: T): Promise<void>; getId(): string; }\<close>.
  Behind the promise that \<open>updateAsync\<close> returns is a task. A task has settled, fulfilled
  (\<open>None\<close>) or rejected with a value; or it has a stretch of synchronous code to run, up
  to its next \<^verbatim>\<open>await\<close> or its end: the stretch changes the heap and calls the subject,
  and the task goes on as the second function says for the heap and the registration set
  the stretch started in. A task is a well-founded tree, so every promise settles after
  finitely many stretches; a promise that never settles is outside the model, as is an
  \<open>update\<close> that never returns. \<open>updateAsync\<close> is an \<^verbatim>\<open>async\<close> function, as that of
  \<^verbatim>\<open>AsyncProcessor\<close> is: it does not throw at the call, it rejects its promise. The two
  mutators of \<open>AsyncObservable\<close> are those of \<open>Observable\<close> word for word, so \<open>perform\<close>
  runs the calls of a task on its subject as well. \<open>AsyncObservable\<close> has no method for
  the size or the membership of its Set; a statement that needs them reads the field
  with \<open>getObserverCount\<close> and \<open>hasObserver\<close>.
\<close>

datatype 'u task =
    Settled "error option"
  | Segment "'u \<Rightarrow> ref option list \<Rightarrow> 'u \<times> subject_call list"
            "'u \<Rightarrow> ref option list \<Rightarrow> 'u task"

record ('a, 'u) AsyncObserver = HasId +
  updateAsync :: "'a \<Rightarrow> 'u task"

definition run_segment ::
  "('u \<Rightarrow> ref option list \<Rightarrow> 'u \<times> subject_call list) \<Rightarrow> ('a, 'u) world \<Rightarrow> ('a, 'u) world" where
  "run_segment eff w =
     (case eff (heap w) (observers w) of (h, calls) \<Rightarrow> perform_all calls (w\<lparr>heap := h\<rparr>))"

text \<open>
  \<^verbatim>\<open>observer.updateAsync(data)\<close>: the call is recorded and the first stretch of the
  function runs at once, inside the call; what is left of the task is behind the promise.
\<close>

definition call_updateAsync ::
  "(ref \<Rightarrow> ('a, 'u) AsyncObserver) \<Rightarrow> 'a \<Rightarrow> ref \<Rightarrow> ('a, 'u) world
     \<Rightarrow> 'u task \<times> ('a, 'u) world" where
  "call_updateAsync env data observer w =
     (let w1 = w\<lparr>trace := trace w @ [Invoked observer data]\<rparr>
      in case updateAsync (env observer) data of
           Settled out \<Rightarrow> (Settled out, w1)
         | Segment eff k \<Rightarrow> (k (heap w1) (observers w1), run_segment eff w1))"

text \<open>
  The code after an \<^verbatim>\<open>await\<close> resumes when the promise has settled: the settling is
  recorded, and a rejection is thrown at the \<^verbatim>\<open>await\<close>.
\<close>

definition resume :: "ref \<Rightarrow> error option \<Rightarrow> ('a, 'u) world \<Rightarrow> ('a, 'u) world completion" where
  "resume observer out w =
     (let w' = w\<lparr>trace := trace w @ [Completed observer out]\<rparr>
      in case out of None \<Rightarrow> Normal w' | Some e \<Rightarrow> Throw e w')"

text \<open>
  \<^verbatim>\<open>catch (error) { console.error(`Error notifying async observer ${observer.getId()}:`, error); }\<close>
\<close>

definition async_handler ::
  "(ref \<Rightarrow> ('a, 'u) AsyncObserver) \<Rightarrow> ref \<Rightarrow> error \<Rightarrow> ('a, 'u) world
     \<Rightarrow> ('a, 'u) world completion" where
  "async_handler env observer e =
     console_error (''Error notifying async observer '' @ getId (env observer) @ '':'') e"

text \<open>
  \<open>notifyObserversSequentially\<close>: the loop \<^verbatim>\<open>for (const observer of this.observers)\<close> over
  the live Set, with \<^verbatim>\<open>try { await observer.updateAsync(data); } catch ...\<close> as its body.
  While the loop waits at its \<^verbatim>\<open>await\<close>, the one task that is pending is the one it waits
  for, and the event loop runs its stretches until it has settled.
\<close>

primrec await_alone :: "'u task \<Rightarrow> ('a, 'u) world \<Rightarrow> error option \<times> ('a, 'u) world" where
  "await_alone (Settled out) w = (out, w)"
| "await_alone (Segment eff k) w = await_alone (k (heap w) (observers w)) (run_segment eff w)"

definition sequential_body ::
  "(ref \<Rightarrow> ('a, 'u) AsyncObserver) \<Rightarrow> 'a \<Rightarrow> ref \<Rightarrow> ('a, 'u) world
     \<Rightarrow> ('a, 'u) world completion" where
  "sequential_body env data observer w =
     try_catch
       (case call_updateAsync env data observer w of
          (t, w1) \<Rightarrow> (case await_alone t w1 of (out, w2) \<Rightarrow> resume observer out w2))
       (async_handler env observer)"

definition notifyObserversSequentially ::
  "(ref \<Rightarrow> ('a, 'u) AsyncObserver) \<Rightarrow> 'a \<Rightarrow> ('a, 'u) world
     \<Rightarrow> ('a, 'u) world completion option" where
  "notifyObserversSequentially env data w = Set_forEach (sequential_body env data) 0 w"

text \<open>
  \<open>notifyObservers\<close> of \<open>AsyncObservable\<close>, first half:
  \<^verbatim>\<open>Array.from(this.observers).map(async observer => { try { await observer.updateAsync(data); } ... })\<close>.
  \<open>map\<close> calls the arrow function on each element of the copy, in order; each call runs
  up to its \<^verbatim>\<open>await\<close>, that is through the call of \<open>updateAsync\<close>, and leaves a pending
  notification: the observer and what is left of its task.
\<close>

fun Array_map_async ::
  "(ref \<Rightarrow> ('a, 'u) AsyncObserver) \<Rightarrow> 'a \<Rightarrow> ref list \<Rightarrow> ('a, 'u) world
     \<Rightarrow> (ref \<times> 'u task) list \<times> ('a, 'u) world" where
  "Array_map_async env data [] w = ([], w)"
| "Array_map_async env data (observer # rest) w =
     (case call_updateAsync env data observer w of
        (t, w1) \<Rightarrow> (case Array_map_async env data rest w1 of
                      (ps, w2) \<Rightarrow> ((observer, t) # ps, w2)))"

text \<open>
  Second half: \<^verbatim>\<open>await Promise.all(notifications)\<close>. The event loop serves one pending
  notification at a time. Which one is not decided by the source (it depends on what the
  tasks wait for), so the order is a parameter: \<open>sched\<close> lists the choices, and the first
  pending one is taken when the list is used up. Serving a task that has not settled runs
  its next stretch; serving a settled one resumes the arrow function after its \<^verbatim>\<open>await\<close>,
  inside its \<^verbatim>\<open>try\<close>, and fulfils the notification. \<open>Promise.all\<close> fulfils when no
  notification is pending and rejects as soon as one rejects.
\<close>

definition pick :: "nat list \<Rightarrow> nat \<Rightarrow> nat" where
  "pick sched n = (case sched of [] \<Rightarrow> 0 | c # cs \<Rightarrow> c mod n)"

definition subtask :: "('u task \<times> 'u task) set" where
  "subtask = {(t', t). \<exists>eff k h S. t = Segment eff k \<and> t' = k h S}"

text \<open>
  The event loop below ends: each step takes a settled task away or replaces a task by
  one of its continuations, which is smaller in the multiset order over the subtask
  relation.
\<close>

lemma wf_subtask: "wf subtask"
proof (rule wfUNIVI)
  fix P :: "'u task \<Rightarrow> bool" and t
  assume step: "\<forall>t. (\<forall>t'. (t', t) \<in> subtask \<longrightarrow> P t') \<longrightarrow> P t"
  show "P t"
  proof (induction t)
    case (Settled out)
    show ?case using step by (auto simp: subtask_def)
  next
    case (Segment eff k)
    have "\<And>t'. (t', Segment eff k) \<in> subtask \<Longrightarrow> P t'"
      using Segment by (auto simp: subtask_def)
    with step show ?case by blast
  qed
qed

lemma pick_less: "0 < n \<Longrightarrow> pick sched n < n"
  by (simp add: pick_def split: list.splits)

lemma mset_remove_nth:
  "i < length xs \<Longrightarrow> mset xs = add_mset (xs ! i) (mset (take i xs @ drop (Suc i) xs))"
proof -
  assume "i < length xs"
  then have "xs = take i xs @ xs ! i # drop (Suc i) xs" by (rule id_take_nth_drop)
  then have "mset xs = mset (take i xs @ xs ! i # drop (Suc i) xs)" by simp
  then show ?thesis by simp
qed

lemma settled_decreases:
  assumes "pending \<noteq> []"
  shows "(mset (map snd (take (pick sched (length pending)) pending
            @ drop (Suc (pick sched (length pending))) pending)),
          mset (map snd pending)) \<in> mult subtask"
proof -
  let ?i = "pick sched (length pending)"
  have lt: "?i < length (map snd pending)" using assms by (simp add: pick_less)
  have "mset (map snd pending)
      = add_mset (map snd pending ! ?i)
          (mset (take ?i (map snd pending) @ drop (Suc ?i) (map snd pending)))"
    using lt by (rule mset_remove_nth)
  then have "mset (map snd (take ?i pending @ drop (Suc ?i) pending)) \<subset># mset (map snd pending)"
    by (simp add: take_map drop_map)
  then show ?thesis by (rule subset_implies_mult)
qed

lemma segment_decreases:
  assumes ne: "pending \<noteq> []"
    and nth: "(observer, Segment eff k) = pending ! pick sched (length pending)"
  shows "(mset (map snd (pending[pick sched (length pending) := (observer, k h S)])),
          mset (map snd pending)) \<in> mult subtask"
proof -
  let ?i = "pick sched (length pending)"
  let ?rest = "mset (take ?i (map snd pending) @ drop (Suc ?i) (map snd pending))"
  have lt: "?i < length (map snd pending)" using ne by (simp add: pick_less)
  have "map snd pending ! ?i = snd (pending ! ?i)" using lt by simp
  also have "\<dots> = Segment eff k" using nth[symmetric] by simp
  finally have M: "mset (map snd pending) = add_mset (Segment eff k) ?rest"
    using mset_remove_nth[OF lt] by simp
  have "map snd (pending[?i := (observer, k h S)]) = (map snd pending)[?i := k h S]"
    by (simp add: map_update)
  also have "\<dots> = take ?i (map snd pending) @ k h S # drop (Suc ?i) (map snd pending)"
    using lt by (rule upd_conv_take_nth_drop)
  finally have N: "mset (map snd (pending[?i := (observer, k h S)])) = ?rest + {#k h S#}"
    by simp
  have "(k h S, Segment eff k) \<in> subtask" by (auto simp: subtask_def)
  then have "(?rest + {#k h S#}, add_mset (Segment eff k) ?rest) \<in> mult1 subtask"
    by (intro mult1I[where a = "Segment eff k" and K = "{#k h S#}" and ?M0.0 = ?rest]) auto
  then show ?thesis unfolding M N mult_def by (rule r_into_trancl)
qed

function Promise_all ::
  "(ref \<Rightarrow> ('a, 'u) AsyncObserver) \<Rightarrow> nat list \<Rightarrow> (ref \<times> 'u task) list \<Rightarrow> ('a, 'u) world
     \<Rightarrow> ('a, 'u) world completion" where
  "Promise_all env sched pending w =
     (if pending = [] then Normal w
      else (case pending ! pick sched (length pending) of
              (observer, Settled out) \<Rightarrow>
                (case try_catch (resume observer out w) (async_handler env observer) of
                   Throw err w' \<Rightarrow> Throw err w'
                 | Normal w' \<Rightarrow>
                     Promise_all env (tl sched)
                       (take (pick sched (length pending)) pending
                          @ drop (Suc (pick sched (length pending))) pending) w')
            | (observer, Segment eff k) \<Rightarrow>
                Promise_all env (tl sched)
                  (pending[pick sched (length pending) := (observer, k (heap w) (observers w))])
                  (run_segment eff w)))"
  by pat_completeness auto
termination
proof (relation "inv_image (mult subtask) (\<lambda>(env, sched, pending, w). mset (map snd pending))")
  show "wf (inv_image (mult subtask)
      (\<lambda>(env :: ref \<Rightarrow> ('a, 'u) AsyncObserver, sched :: nat list, pending :: (ref \<times> 'u task) list,
          w :: ('a, 'u) world). mset (map snd pending)))"
    by (intro wf_inv_image wf_mult wf_subtask)
qed (auto simp only: in_inv_image prod.case intro: settled_decreases segment_decreases)

declare Promise_all.simps [simp del]

definition async_notifyObservers ::
  "(ref \<Rightarrow> ('a, 'u) AsyncObserver) \<Rightarrow> nat list \<Rightarrow> 'a \<Rightarrow> ('a, 'u) world
     \<Rightarrow> ('a, 'u) world completion" where
  "async_notifyObservers env sched data w =
     (case Array_map_async env data (Set_values (observers w)) w of
        (notifications, w1) \<Rightarrow> Promise_all env sched notifications w1)"

subsection \<open>Reading a trace, and callbacks that leave the registration set alone\<close>

text \<open>The calls of \<open>update\<close>/\<open>updateAsync\<close> in a trace, and the observers whose call settled.\<close>

primrec invocations :: "'a event list \<Rightarrow> (ref \<times> 'a) list" where
  "invocations [] = []"
| "invocations (ev # evs) =
     (case ev of Invoked r x \<Rightarrow> (r, x) # invocations evs | _ \<Rightarrow> invocations evs)"

primrec completions :: "'a event list \<Rightarrow> ref list" where
  "completions [] = []"
| "completions (ev # evs) =
     (case ev of Completed r out \<Rightarrow> r # completions evs | _ \<Rightarrow> completions evs)"

text \<open>
  A trace is one-at-a-time when no call starts while another has started and not settled;
  the first argument is the observer whose call is under way.
\<close>

fun one_at_a_time :: "ref option \<Rightarrow> 'a event list \<Rightarrow> bool" where
  "one_at_a_time running [] = (running = None)"
| "one_at_a_time running (Invoked r x # evs) = (running = None \<and> one_at_a_time (Some r) evs)"
| "one_at_a_time running (Completed r out # evs) = (running = Some r \<and> one_at_a_time None evs)"
| "one_at_a_time running (ErrorLine m e # evs) = one_at_a_time running evs"
| "one_at_a_time running (LogLine m # evs) = one_at_a_time running evs"

text \<open>
  What the mutators of a Set can do to its list: make it longer, and empty some of its
  elements. No element is ever moved or replaced by another value.
\<close>

definition slots_kept :: "'e option list \<Rightarrow> 'e option list \<Rightarrow> bool" where
  "slots_kept S S' = (length S \<le> length S' \<and> (\<forall>j < length S. S' ! j = S ! j \<or> S' ! j = None))"

text \<open>
  The registration set after a callback's calls on the subject. A callback is quiet when
  it leaves the set as it found it, whatever it is given; it unsubscribes at most \<open>r\<close> when
  it leaves the set as it found it or with \<open>r\<close> taken out.
\<close>

definition set_after :: "subject_call list \<Rightarrow> ref option list \<Rightarrow> ref option list" where
  "set_after calls S =
     observers (perform_all calls \<lparr>observers = S, heap = (), trace = ([] :: unit event list)\<rparr>)"

definition quiet :: "('a, 'u) Observer \<Rightarrow> bool" where
  "quiet ob = (\<forall>data h S. set_after (fst (snd (update ob data h S))) S = S)"

definition unsubscribes_at_most :: "ref \<Rightarrow> ('a, 'u) Observer \<Rightarrow> bool" where
  "unsubscribes_at_most r ob =
     (\<forall>data h S. set_after (fst (snd (update ob data h S))) S = S
        \<or> set_after (fst (snd (update ob data h S))) S = Set_delete r S)"

primrec quiet_task :: "'u task \<Rightarrow> bool" where
  "quiet_task (Settled out) = True"
| "quiet_task (Segment eff k) = (\<forall>h S. set_after (snd (eff h S)) S = S \<and> quiet_task (k h S))"

definition async_quiet :: "('a, 'u) AsyncObserver \<Rightarrow> bool" where
  "async_quiet ob = (\<forall>data. quiet_task (updateAsync ob data))"

text \<open>
  A callback adds none when it leaves the list of the Set as long as it found it: it
  subscribes no observer that is not registered at that moment. It may unsubscribe.
\<close>

definition adds_none :: "('a, 'u) Observer \<Rightarrow> bool" where
  "adds_none ob = (\<forall>x h S. length (set_after (fst (snd (update ob x h S))) S) = length S)"

primrec task_adds_none :: "'u task \<Rightarrow> bool" where
  "task_adds_none (Settled out) = True"
| "task_adds_none (Segment eff k) =
     (\<forall>h S. length (set_after (snd (eff h S)) S) = length S \<and> task_adds_none (k h S))"

definition async_adds_none :: "('a, 'u) AsyncObserver \<Rightarrow> bool" where
  "async_adds_none ob = (\<forall>x. task_adds_none (updateAsync ob x))"






subsection \<open>EventEmitter and EventFilter\<close>

text \<open>
  \<^verbatim>\<open>interface Event { type: string; data: any; timestamp: Date; source?: string; }\<close>.
  A date is its number of milliseconds; \<open>now\<close> is what \<^verbatim>\<open>new Date()\<close> reads when \<open>emit\<close>
  runs.
\<close>

record 'd Event =
  type :: string
  data :: 'd
  timestamp :: nat
  source :: "string option"

definition emit ::
  "(ref \<Rightarrow> ('d Event, 'u) Observer) \<Rightarrow> nat \<Rightarrow> string \<Rightarrow> 'd \<Rightarrow> string option
     \<Rightarrow> ('d Event, 'u) world \<Rightarrow> ('d Event, 'u) world completion option" where
  "emit env now ty da src w =
     notifyObservers env \<lparr>type = ty, data = da, timestamp = now, source = src\<rparr> w"

text \<open>
  An \<open>EventFilter\<close> has its identifier (\<open>getId\<close> returns it) and the Set of the allowed
  types. Its \<open>filteredEmitter\<close> is a new \<open>EventEmitter\<close>; the registration set of that
  emitter is the \<open>observers\<close> of the world that \<open>EventFilter_update\<close> runs in.
\<close>

record EventFilter = HasId +
  allowedTypes :: "string option list"

definition EventFilter_new :: "string \<Rightarrow> string list \<Rightarrow> EventFilter" where
  "EventFilter_new ident allowed = \<lparr>getId = ident, allowedTypes = Set_new allowed\<rparr>"

text \<open>What a template literal makes of \<^verbatim>\<open>event.source\<close>, which may be undefined.\<close>

definition template_of :: "string option \<Rightarrow> string" where
  "template_of src = (case src of None \<Rightarrow> ''undefined'' | Some s \<Rightarrow> s)"

definition EventFilter_update ::
  "(ref \<Rightarrow> ('d Event, 'u) Observer) \<Rightarrow> nat \<Rightarrow> EventFilter \<Rightarrow> 'd Event
     \<Rightarrow> ('d Event, 'u) world \<Rightarrow> ('d Event, 'u) world completion option" where
  "EventFilter_update env now f event w =
     (if Set_has (allowedTypes f) (type event) then
        emit env now (type event) (data event) (Some (''filtered-'' @ template_of (source event)))
          (console_log (''['' @ getId f @ ''] Filtering event: '' @ type event) w)
      else Some (Normal w))"

subsection \<open>Observers of the examples\<close>

text \<open>
  Observers to run the engines on. \<open>recorder\<close> keeps what it is given, as \<^verbatim>\<open>EventLogger\<close>
  does in its \<open>logs\<close>; \<open>AsyncProcessor\<close> is the class of that name, with one \<^verbatim>\<open>await\<close>
  between its two stretches (how long it waits there is real time and is left out). The others throw, reject or call the subject from their
  callback. \<open>world_of\<close> is a notifier with the given Set and nothing recorded yet.
\<close>

definition recorder :: "string \<Rightarrow> ('a, 'a list) Observer" where
  "recorder ident = \<lparr>getId = ident, update = (\<lambda>x h S. (h @ [x], [], None))\<rparr>"

definition failing :: "string \<Rightarrow> ('a, 'u) Observer" where
  "failing ident = \<lparr>getId = ident, update = (\<lambda>x h S. (h, [], Some (Error ''boom'')))\<rparr>"

definition subscriber :: "ref \<Rightarrow> ('a, 'u) Observer" where
  "subscriber r = \<lparr>getId = ''subscriber'', update = (\<lambda>x h S. (h, [AddObserver r], None))\<rparr>"

definition unsubscriber :: "ref \<Rightarrow> ('a, 'u) Observer" where
  "unsubscriber r = \<lparr>getId = ''unsubscriber'', update = (\<lambda>x h S. (h, [RemoveObserver r], None))\<rparr>"

definition world_of :: "ref option list \<Rightarrow> ('a, 'a list) world" where
  "world_of S = \<lparr>observers = S, heap = [], trace = []\<rparr>"

definition once :: "ref \<Rightarrow> ('a, 'a list) Observer" where
  "once r = \<lparr>getId = ''once'', update = (\<lambda>x h S. (h @ [x], [RemoveObserver r], None))\<rparr>"



definition AsyncProcessor :: "string \<Rightarrow> ('a, 'u) AsyncObserver" where
  "AsyncProcessor ident =
     \<lparr>getId = ident,
      updateAsync = (\<lambda>x. Segment (\<lambda>h S. (h, [])) (\<lambda>h S.
                           Segment (\<lambda>h S. (h, [])) (\<lambda>h S. Settled None)))\<rparr>"

definition async_failing :: "string \<Rightarrow> ('a, 'u) AsyncObserver" where
  "async_failing ident =
     \<lparr>getId = ident,
      updateAsync = (\<lambda>x. Segment (\<lambda>h S. (h, [])) (\<lambda>h S. Settled (Some (Error ''boom''))))\<rparr>"

definition async_subscriber :: "ref \<Rightarrow> ('a, 'u) AsyncObserver" where
  "async_subscriber r =
     \<lparr>getId = ''subscriber'',
      updateAsync = (\<lambda>x. Segment (\<lambda>h S. (h, [AddObserver r])) (\<lambda>h S. Settled None))\<rparr>"

section \<open>Properties\<close>

subsection \<open>The Set\<close>

lemma Set_values_append [simp]: "Set_values (S @ T) = Set_values S @ Set_values T"
  by (simp add: Set_values_def)

lemma Set_values_Nil [simp]: "Set_values [] = []"
  by (simp add: Set_values_def)

lemma Set_values_Cons_None [simp]: "Set_values (None # S) = Set_values S"
  by (simp add: Set_values_def)

lemma Set_values_Cons_Some [simp]: "Set_values (Some e # S) = e # Set_values S"
  by (simp add: Set_values_def)

lemma set_Set_values: "set (Set_values S) = {e. Some e \<in> set S}"
  by (induction S) (auto split: option.splits simp: Set_values_def)

lemma Set_has_values: "Set_has S e = (e \<in> set (Set_values S))"
  by (simp add: Set_has_def set_Set_values)

lemma Set_delete_absent: "\<not> Set_has S e \<Longrightarrow> Set_delete e S = S"
  by (induction S) (auto simp: Set_delete_def Set_has_def)

lemma Set_add_present: "Set_has S e \<Longrightarrow> Set_add e S = S"
  by (simp add: Set_add_def)

lemma Set_has_add [simp]: "Set_has (Set_add e S) e"
  by (simp add: Set_add_def Set_has_def)

lemma Set_size_add_absent: "\<not> Set_has S e \<Longrightarrow> Set_size (Set_add e S) = Set_size S + 1"
  by (simp add: Set_add_def Set_size_def)

lemma Set_delete_length [simp]: "length (Set_delete e S) = length S"
  by (simp add: Set_delete_def)

lemma Set_delete_drop: "drop n (Set_delete e S) = Set_delete e (drop n S)"
  by (simp add: Set_delete_def drop_map)

lemma Set_values_delete: "Set_values (Set_delete r S) = filter (\<lambda>e. e \<noteq> r) (Set_values S)"
proof (induction S)
  case Nil
  show ?case by (simp add: Set_delete_def)
next
  case (Cons a S)
  then have "Set_values (Set_delete r S) = filter (\<lambda>e. e \<noteq> r) (Set_values S)" .
  moreover have "Set_delete r (a # S) = (if a = Some r then None else a) # Set_delete r S"
    by (simp add: Set_delete_def)
  ultimately show ?case by (cases a) simp_all
qed

lemma Set_values_clear: "Set_values (Set_clear S) = []"
  by (induction S) (simp_all add: Set_clear_def)

lemma Set_ok_Nil: "Set_ok []"
  by (simp add: Set_ok_def)

lemma Set_ok_add: "Set_ok S \<Longrightarrow> Set_ok (Set_add e S)"
  by (simp add: Set_ok_def Set_add_def Set_has_values)

lemma Set_ok_delete: "Set_ok S \<Longrightarrow> Set_ok (Set_delete e S)"
  by (simp add: Set_ok_def Set_values_delete)

lemma Set_ok_clear: "Set_ok (Set_clear S)"
  by (simp add: Set_ok_def Set_values_clear)

lemma Set_ok_new: "Set_ok (Set_new xs :: 'e option list)"
proof -
  have "Set_ok S \<Longrightarrow> Set_ok (foldl (\<lambda>S e. Set_add e S) S xs)" for S :: "'e option list"
    by (induction xs arbitrary: S) (simp_all add: Set_ok_add)
  then show ?thesis by (simp add: Set_new_def Set_ok_Nil)
qed

lemma slots_kept_refl: "slots_kept S S"
  by (simp add: slots_kept_def)

lemma slots_kept_trans: "slots_kept S T \<Longrightarrow> slots_kept T U \<Longrightarrow> slots_kept S U"
proof -
  assume a: "slots_kept S T" and b: "slots_kept T U"
  have "length S \<le> length U" using a b by (simp add: slots_kept_def)
  moreover have "U ! j = S ! j \<or> U ! j = None" if "j < length S" for j
  proof -
    from that a have "j < length T" and "T ! j = S ! j \<or> T ! j = None"
      by (simp_all add: slots_kept_def)
    moreover from this b have "U ! j = T ! j \<or> U ! j = None" by (simp add: slots_kept_def)
    ultimately show ?thesis by auto
  qed
  ultimately show ?thesis by (simp add: slots_kept_def)
qed

lemma slots_kept_add: "slots_kept S (Set_add e S)"
  by (simp add: slots_kept_def Set_add_def nth_append)

lemma slots_kept_delete: "slots_kept S (Set_delete e S)"
  by (simp add: slots_kept_def Set_delete_def)

lemma slots_kept_clear: "slots_kept S (Set_clear S)"
  by (simp add: slots_kept_def Set_clear_def)

subsection \<open>The calls of a callback on its subject\<close>

lemma perform_all_Nil [simp]: "perform_all [] w = w"
  by (simp add: perform_all_def)

lemma perform_all_Cons [simp]: "perform_all (c # cs) w = perform_all cs (perform c w)"
  by (simp add: perform_all_def)

lemma heap_perform [simp]: "heap (perform c w) = heap w"
  by (cases c) (simp_all add: addObserver_def removeObserver_def clearObservers_def)

lemma trace_perform [simp]: "trace (perform c w) = trace w"
  by (cases c) (simp_all add: addObserver_def removeObserver_def clearObservers_def)

lemma heap_perform_all [simp]: "heap (perform_all cs w) = heap w"
  by (induction cs arbitrary: w) simp_all

lemma trace_perform_all [simp]: "trace (perform_all cs w) = trace w"
  by (induction cs arbitrary: w) simp_all

lemma observers_perform:
  "observers w1 = observers w2 \<Longrightarrow> observers (perform c w1) = observers (perform c w2)"
  by (cases c) (simp_all add: addObserver_def removeObserver_def clearObservers_def)

lemma observers_perform_all_cong:
  "observers w1 = observers w2 \<Longrightarrow> observers (perform_all cs w1) = observers (perform_all cs w2)"
proof (induction cs arbitrary: w1 w2)
  case Nil
  then show ?case by simp
next
  case (Cons c cs)
  from Cons.prems have "observers (perform c w1) = observers (perform c w2)"
    by (rule observers_perform)
  then show ?case unfolding perform_all_Cons by (rule Cons.IH)
qed

lemma observers_perform_all: "observers (perform_all cs w) = set_after cs (observers w)"
  unfolding set_after_def by (rule observers_perform_all_cong) simp

lemma Set_ok_perform: "Set_ok (observers w) \<Longrightarrow> Set_ok (observers (perform c w))"
  by (cases c)
    (simp_all add: addObserver_def removeObserver_def clearObservers_def
      Set_ok_add Set_ok_delete Set_ok_clear)

lemma Set_ok_perform_all: "Set_ok (observers w) \<Longrightarrow> Set_ok (observers (perform_all cs w))"
  by (induction cs arbitrary: w) (simp_all add: Set_ok_perform)

lemma slots_kept_perform: "slots_kept (observers w) (observers (perform c w))"
  by (cases c)
    (simp_all add: addObserver_def removeObserver_def clearObservers_def
      slots_kept_add slots_kept_delete slots_kept_clear)

lemma slots_kept_perform_all: "slots_kept (observers w) (observers (perform_all cs w))"
proof (induction cs arbitrary: w)
  case Nil
  show ?case by (simp add: slots_kept_refl)
next
  case (Cons c cs)
  from slots_kept_perform[of w c] Cons[of "perform c w"] show ?case
    by (simp add: slots_kept_trans)
qed

subsection \<open>Traces\<close>

lemma invocations_append [simp]: "invocations (xs @ ys) = invocations xs @ invocations ys"
  by (induction xs) (simp_all split: event.splits)

lemma completions_append [simp]: "completions (xs @ ys) = completions xs @ completions ys"
  by (induction xs) (simp_all split: event.splits)

lemma one_at_a_time_append:
  "one_at_a_time s a \<Longrightarrow> one_at_a_time None b \<Longrightarrow> one_at_a_time s (a @ b)"
  by (induction s a rule: one_at_a_time.induct) simp_all


subsection \<open>The walk over the live Set\<close>


lemma Set_forEach_snapshot:
  assumes cb: "\<And>r w. r \<in> R \<Longrightarrow>
      observers (state_of (cb r w)) = observers w
      \<or> D \<and> observers (state_of (cb r w)) = Set_delete r (observers w)"
  shows "(D \<longrightarrow> distinct (Set_values (drop i (observers w)))) \<Longrightarrow>
         set (Set_values (drop i (observers w))) \<subseteq> R \<Longrightarrow>
         Set_forEach cb i w = Some (Array_forEach cb (Set_values (drop i (observers w))) w)"
proof (induction "length (observers w) - i" arbitrary: i w)
  case 0
  then have "drop i (observers w) = []" by simp
  with 0 show ?case by (subst Set_forEach.simps) simp
next
  case (Suc n)
  then have lt: "i < length (observers w)" by simp
  then have dr: "drop i (observers w) = observers w ! i # drop (Suc i) (observers w)"
    by (simp add: Cons_nth_drop_Suc)
  show ?case
  proof (cases "observers w ! i")
    case None
    have vals: "Set_values (drop i (observers w)) = Set_values (drop (Suc i) (observers w))"
      using dr None by simp
    have "Set_forEach cb (Suc i) w
        = Some (Array_forEach cb (Set_values (drop (Suc i) (observers w))) w)"
    proof (rule Suc.hyps(1))
      show "n = length (observers w) - Suc i" using Suc.hyps(2) by simp
      show "D \<longrightarrow> distinct (Set_values (drop (Suc i) (observers w)))"
        using Suc.prems(1) vals by simp
      show "set (Set_values (drop (Suc i) (observers w))) \<subseteq> R"
        using Suc.prems(2) vals by simp
    qed
    with lt None vals show ?thesis by (subst Set_forEach.simps) simp
  next
    case (Some r)
    have vals: "Set_values (drop i (observers w)) = r # Set_values (drop (Suc i) (observers w))"
      using dr Some by simp
    have rR: "r \<in> R"
      and sub: "set (Set_values (drop (Suc i) (observers w))) \<subseteq> R"
      using Suc.prems(2) unfolding vals by simp_all
    have dist: "D \<longrightarrow> r \<notin> set (Set_values (drop (Suc i) (observers w)))
                   \<and> distinct (Set_values (drop (Suc i) (observers w)))"
      using Suc.prems(1) unfolding vals by simp
    show ?thesis
    proof (cases "cb r w")
      case (Throw e w')
      with lt Some vals show ?thesis by (subst Set_forEach.simps) simp
    next
      case (Normal w')
      with cb[OF rR, of w]
      have "observers w' = observers w \<or> D \<and> observers w' = Set_delete r (observers w)"
        by simp
      moreover have "D \<Longrightarrow> Set_delete r (drop (Suc i) (observers w)) = drop (Suc i) (observers w)"
        using dist by (intro Set_delete_absent) (simp add: Set_has_values)
      ultimately have len: "length (observers w') = length (observers w)"
        and dr': "drop (Suc i) (observers w') = drop (Suc i) (observers w)"
        by (auto simp: Set_delete_drop)
      have "Set_forEach cb (Suc i) w'
          = Some (Array_forEach cb (Set_values (drop (Suc i) (observers w'))) w')"
      proof (rule Suc.hyps(1))
        show "n = length (observers w') - Suc i" using Suc.hyps(2) len by simp
        show "D \<longrightarrow> distinct (Set_values (drop (Suc i) (observers w')))"
          using dist dr' by simp
        show "set (Set_values (drop (Suc i) (observers w'))) \<subseteq> R"
          using sub dr' by simp
      qed
      with lt Some vals Normal dr' show ?thesis by (subst Set_forEach.simps) simp
    qed
  qed
qed

lemma Set_forEach_live:
  assumes run: "Set_forEach cb i w = Some c"
  shows "(\<forall>r w. \<exists>w' evs. cb r w = Normal w' \<and> slots_kept (observers w) (observers w')
            \<and> trace w' = trace w @ evs \<and> invocations evs = [(r, x)])
     \<longrightarrow> (\<exists>w' evs. c = Normal w' \<and> slots_kept (observers w) (observers w')
            \<and> trace w' = trace w @ evs \<and> snd ` set (invocations evs) \<subseteq> {x}
            \<and> (\<forall>j r. i \<le> j \<and> j < length (observers w') \<and> observers w' ! j = Some r
                  \<longrightarrow> (r, x) \<in> set (invocations evs)))"
    (is "?P cb i w c")
proof (rule Set_forEach.raw_induct[where P = ?P, OF _ run])
  fix S :: "(ref \<Rightarrow> ('a, 'b) world \<Rightarrow> ('a, 'b) world completion) \<Rightarrow> nat \<Rightarrow> ('a, 'b) world
      \<Rightarrow> ('a, 'b) world completion option"
  fix cb i w c
  assume IH: "\<And>cb i w c. S cb i w = Some c \<Longrightarrow> ?P cb i w c"
  assume step: "(if i < length (observers w)
      then case observers w ! i of
           None \<Rightarrow> S cb (i + 1) w
           | Some e \<Rightarrow>
               (case cb e w of
                Normal w' \<Rightarrow> S cb (i + 1) w'
                | Throw err w' \<Rightarrow> Some (Throw err w'))
      else Some (Normal w)) = Some c"
  show "?P cb i w c"
  proof
    assume cb: "\<forall>r w. \<exists>w' evs. cb r w = Normal w' \<and> slots_kept (observers w) (observers w')
            \<and> trace w' = trace w @ evs \<and> invocations evs = [(r, x)]"
    let ?goal = "\<exists>w' evs. c = Normal w' \<and> slots_kept (observers w) (observers w')
            \<and> trace w' = trace w @ evs \<and> snd ` set (invocations evs) \<subseteq> {x}
            \<and> (\<forall>j r. i \<le> j \<and> j < length (observers w') \<and> observers w' ! j = Some r
                  \<longrightarrow> (r, x) \<in> set (invocations evs))"
    show ?goal
    proof (cases "i < length (observers w)")
      case False
      with step have "c = Normal w" by simp
      with False show ?thesis by (intro exI[of _ w] exI[of _ "[]"]) (simp add: slots_kept_refl)
    next
      case True
      show ?thesis
      proof (cases "observers w ! i")
        case None
        with True step have "S cb (i + 1) w = Some c" by simp
        from IH[OF this] cb obtain w' evs where r: "c = Normal w'"
          "slots_kept (observers w) (observers w')" "trace w' = trace w @ evs"
          "snd ` set (invocations evs) \<subseteq> {x}"
          "\<forall>j r. i + 1 \<le> j \<and> j < length (observers w') \<and> observers w' ! j = Some r
                  \<longrightarrow> (r, x) \<in> set (invocations evs)" by blast
        from r(2) True None have "observers w' ! i = None" by (auto simp: slots_kept_def)
        have "\<forall>j r. i \<le> j \<and> j < length (observers w') \<and> observers w' ! j = Some r
                  \<longrightarrow> (r, x) \<in> set (invocations evs)"
        proof (intro allI impI)
          fix j r
          assume a: "i \<le> j \<and> j < length (observers w') \<and> observers w' ! j = Some r"
          with \<open>observers w' ! i = None\<close> have "j \<noteq> i" by auto
          with a have "i + 1 \<le> j" by simp
          with a r(5) show "(r, x) \<in> set (invocations evs)" by auto
        qed
        with r show ?thesis by blast
      next
        case (Some r0)
        from cb obtain w1 e1 where c1: "cb r0 w = Normal w1"
          "slots_kept (observers w) (observers w1)" "trace w1 = trace w @ e1"
          "invocations e1 = [(r0, x)]" by blast
        with True Some step have "S cb (i + 1) w1 = Some c" by simp
        from IH[OF this] cb obtain w' e2 where r: "c = Normal w'"
          "slots_kept (observers w1) (observers w')" "trace w' = trace w1 @ e2"
          "snd ` set (invocations e2) \<subseteq> {x}"
          "\<forall>j r. i + 1 \<le> j \<and> j < length (observers w') \<and> observers w' ! j = Some r
                  \<longrightarrow> (r, x) \<in> set (invocations e2)" by blast
        have k: "slots_kept (observers w) (observers w')"
          using c1(2) r(2) by (rule slots_kept_trans)
        with True Some have i: "observers w' ! i = Some r0 \<or> observers w' ! i = None"
          by (auto simp: slots_kept_def)
        have "\<forall>j r. i \<le> j \<and> j < length (observers w') \<and> observers w' ! j = Some r
                  \<longrightarrow> (r, x) \<in> set (invocations (e1 @ e2))"
        proof (intro allI impI)
          fix j r
          assume a: "i \<le> j \<and> j < length (observers w') \<and> observers w' ! j = Some r"
          show "(r, x) \<in> set (invocations (e1 @ e2))"
          proof (cases "j = i")
            case True
            with a i have "r = r0" by auto
            with c1(4) show ?thesis by simp
          next
            case False
            with a have "i + 1 \<le> j" by simp
            with a r(5) show ?thesis by auto
          qed
        qed
        moreover have "trace w' = trace w @ (e1 @ e2)" using c1(3) r(3) by simp
        moreover have "snd ` set (invocations (e1 @ e2)) \<subseteq> {x}" using c1(4) r(4) by auto
        ultimately show ?thesis using r(1) k by blast
      qed
    qed
  qed
qed



subsection \<open>The synchronous notification\<close>

lemma notify_callback_Normal: "\<exists>w'. notify_callback env x r w = Normal w'"
  by (simp add: notify_callback_def try_catch_def console_error_def split: completion.splits)

lemma notify_callback_observers:
  "observers (state_of (notify_callback env x r w))
     = set_after (fst (snd (update (env r) x (heap w) (observers w)))) (observers w)"
  by (cases "update (env r) x (heap w) (observers w)")
    (simp add: notify_callback_def try_catch_def console_error_def call_update_def Let_def
      observers_perform_all split: completion.splits option.splits)

lemma notify_callback_trace:
  "\<exists>evs. trace (state_of (notify_callback env x r w)) = trace w @ evs
         \<and> invocations evs = [(r, x)]"
  by (cases "update (env r) x (heap w) (observers w)")
    (simp add: notify_callback_def try_catch_def console_error_def call_update_def Let_def
      split: completion.splits option.splits)

lemma Array_forEach_notify:
  "\<exists>w' evs. Array_forEach (notify_callback env x) rs w = Normal w'
      \<and> trace w' = trace w @ evs \<and> invocations evs = map (\<lambda>r. (r, x)) rs"
proof (induction rs arbitrary: w)
  case Nil
  show ?case by simp
next
  case (Cons r rs)
  obtain w1 where w1: "notify_callback env x r w = Normal w1"
    using notify_callback_Normal[of env x r w] by blast
  from notify_callback_trace[of env x r w] w1 obtain e1
    where e1: "trace w1 = trace w @ e1" "invocations e1 = [(r, x)]" by auto
  from Cons[of w1] obtain w' evs where
    "Array_forEach (notify_callback env x) rs w1 = Normal w'"
    "trace w' = trace w1 @ evs" "invocations evs = map (\<lambda>r. (r, x)) rs" by blast
  with w1 e1 show ?case by (intro exI[of _ w'] exI[of _ "e1 @ evs"]) simp
qed

lemma Array_forEach_notify_quiet:
  assumes "\<And>r. r \<in> set rs \<Longrightarrow> quiet (env r)"
  shows "observers (state_of (Array_forEach (notify_callback env x) rs w)) = observers w"
  using assms
proof (induction rs arbitrary: w)
  case Nil
  show ?case by simp
next
  case (Cons r rs)
  obtain w1 where w1: "notify_callback env x r w = Normal w1"
    using notify_callback_Normal[of env x r w] by blast
  have "quiet (env r)" using Cons.prems by simp
  then have "observers w1 = observers w"
    using notify_callback_observers[of env x r w] w1
    by (simp add: quiet_def)
  moreover have "observers (state_of (Array_forEach (notify_callback env x) rs w1)) = observers w1"
    using Cons.prems by (intro Cons.IH) simp
  ultimately show ?case using w1 by simp
qed



lemma notify_callback_quiet:
  "quiet (env r) \<Longrightarrow> observers (state_of (notify_callback env x r w)) = observers w"
  by (simp add: notify_callback_observers quiet_def)

lemma notify_callback_unsubscribes:
  "unsubscribes_at_most r (env r) \<Longrightarrow>
   observers (state_of (notify_callback env x r w)) = observers w
   \<or> observers (state_of (notify_callback env x r w)) = Set_delete r (observers w)"
  by (simp add: notify_callback_observers unsubscribes_at_most_def)

lemma notifyObservers_quiet:
  assumes "\<forall>r. hasObserver w r \<longrightarrow> quiet (env r)"
  shows "notifyObservers env x w = Some (notify_snapshot env x w)"
proof -
  have "Set_forEach (notify_callback env x) 0 w
      = Some (Array_forEach (notify_callback env x) (Set_values (drop 0 (observers w))) w)"
  proof (rule Set_forEach_snapshot[where R = "set (Set_values (observers w))" and D = False])
    fix r w'
    assume "r \<in> set (Set_values (observers w))"
    then have "quiet (env r)" using assms by (simp add: hasObserver_def Set_has_values)
    then show "observers (state_of (notify_callback env x r w')) = observers w'
        \<or> False \<and> observers (state_of (notify_callback env x r w')) = Set_delete r (observers w')"
      by (simp add: notify_callback_quiet)
  qed simp_all
  then show ?thesis by (simp add: notifyObservers_def notify_snapshot_def)
qed

lemma notifyObservers_unsubscribing:
  assumes "Set_ok (observers w)" and "\<forall>r. hasObserver w r \<longrightarrow> unsubscribes_at_most r (env r)"
  shows "notifyObservers env x w = Some (notify_snapshot env x w)"
proof -
  have "Set_forEach (notify_callback env x) 0 w
      = Some (Array_forEach (notify_callback env x) (Set_values (drop 0 (observers w))) w)"
  proof (rule Set_forEach_snapshot[where R = "set (Set_values (observers w))" and D = True])
    fix r w'
    assume "r \<in> set (Set_values (observers w))"
    then have "unsubscribes_at_most r (env r)"
      using assms(2) by (simp add: hasObserver_def Set_has_values)
    then show "observers (state_of (notify_callback env x r w')) = observers w'
        \<or> True \<and> observers (state_of (notify_callback env x r w')) = Set_delete r (observers w')"
      using notify_callback_unsubscribes[of r env x w'] by simp
  qed (use assms(1) in \<open>simp_all add: Set_ok_def\<close>)
  then show ?thesis by (simp add: notifyObservers_def notify_snapshot_def)
qed

lemma notify_snapshot_events:
  "\<exists>w' evs. notify_snapshot env x w = Normal w' \<and> trace w' = trace w @ evs
      \<and> invocations evs = map (\<lambda>r. (r, x)) (Set_values (observers w))"
  unfolding notify_snapshot_def by (rule Array_forEach_notify)

lemma Array_forEach_notify_unsubscribing:
  assumes "\<And>r. r \<in> set rs \<Longrightarrow> unsubscribes_at_most r (env r)"
  shows "set (Set_values (observers (state_of (Array_forEach (notify_callback env x) rs w))))
      \<subseteq> set (Set_values (observers w))"
  using assms
proof (induction rs arbitrary: w)
  case Nil
  show ?case by simp
next
  case (Cons r rs)
  obtain w1 where w1: "notify_callback env x r w = Normal w1"
    using notify_callback_Normal[of env x r w] by blast
  have "unsubscribes_at_most r (env r)" using Cons.prems by simp
  from notify_callback_unsubscribes[of r env x w] this w1
  have "set (Set_values (observers w1)) \<subseteq> set (Set_values (observers w))"
    by (auto simp: Set_values_delete)
  moreover have "set (Set_values (observers (state_of (Array_forEach (notify_callback env x) rs w1))))
      \<subseteq> set (Set_values (observers w1))"
    using Cons.prems by (intro Cons.IH) simp
  ultimately show ?case using w1 by auto
qed





lemma slots_kept_notify_callback:
  "slots_kept (observers w) (observers (state_of (notify_callback env x r w)))"
proof -
  have "slots_kept (observers w) (set_after (fst (snd (update (env r) x (heap w) (observers w)))) (observers w))"
    unfolding set_after_def
    using slots_kept_perform_all[of "\<lparr>observers = observers w, heap = (), trace = ([] :: unit event list)\<rparr>"]
    by simp
  then show ?thesis by (simp add: notify_callback_observers)
qed

lemma notifyObservers_live:
  assumes "notifyObservers env x w = Some c"
  shows "\<exists>w' evs. c = Normal w' \<and> trace w' = trace w @ evs
     \<and> snd ` set (invocations evs) \<subseteq> {x}
     \<and> (\<forall>r. hasObserver w' r \<longrightarrow> (r, x) \<in> set (invocations evs))"
proof -
  from assms have run: "Set_forEach (notify_callback env x) 0 w = Some c"
    by (simp add: notifyObservers_def)
  have cb: "\<forall>r w. \<exists>w' evs. notify_callback env x r w = Normal w'
      \<and> slots_kept (observers w) (observers w')
      \<and> trace w' = trace w @ evs \<and> invocations evs = [(r, x)]"
  proof (intro allI)
    fix r w
    obtain w' where w': "notify_callback env x r w = Normal w'"
      using notify_callback_Normal[of env x r w] by blast
    with slots_kept_notify_callback[of w env x r] notify_callback_trace[of env x r w]
    show "\<exists>w' evs. notify_callback env x r w = Normal w'
      \<and> slots_kept (observers w) (observers w')
      \<and> trace w' = trace w @ evs \<and> invocations evs = [(r, x)]" by auto
  qed
  from Set_forEach_live[OF run, of x, THEN mp, OF cb] obtain w' evs where r: "c = Normal w'"
    "trace w' = trace w @ evs" "snd ` set (invocations evs) \<subseteq> {x}"
    "\<forall>j r. 0 \<le> j \<and> j < length (observers w') \<and> observers w' ! j = Some r
        \<longrightarrow> (r, x) \<in> set (invocations evs)" by auto
  have "\<forall>r. hasObserver w' r \<longrightarrow> (r, x) \<in> set (invocations evs)"
    using r(4) by (auto simp: hasObserver_def Set_has_def in_set_conv_nth)
  with r show ?thesis by blast
qed


lemma quiet_adds_none: "quiet ob \<Longrightarrow> adds_none ob"
  by (simp add: quiet_def adds_none_def)

subsection \<open>The sequential notification\<close>

lemma trace_run_segment [simp]: "trace (run_segment eff w) = trace w"
  by (simp add: run_segment_def split: prod.splits)

lemma observers_run_segment:
  "observers (run_segment eff w) = set_after (snd (eff (heap w) (observers w))) (observers w)"
  by (simp add: run_segment_def observers_perform_all split: prod.splits)

lemma trace_call_updateAsync:
  "trace (snd (call_updateAsync env x r w)) = trace w @ [Invoked r x]"
  by (simp add: call_updateAsync_def Let_def split: task.splits)

lemma quiet_call_updateAsync:
  assumes "async_quiet (env r)"
  shows "observers (snd (call_updateAsync env x r w)) = observers w
       \<and> quiet_task (fst (call_updateAsync env x r w))"
proof (cases "updateAsync (env r) x")
  case (Settled out)
  then show ?thesis by (simp add: call_updateAsync_def)
next
  case (Segment eff k)
  from assms have "quiet_task (updateAsync (env r) x)" by (simp add: async_quiet_def)
  with Segment show ?thesis
    by (simp add: call_updateAsync_def Let_def observers_run_segment)
qed

lemma task_induct [case_names Settled Segment]:
  assumes "\<And>out. P (Settled out)"
    and "\<And>eff k. (\<And>h S. P (k h S)) \<Longrightarrow> P (Segment eff k)"
  shows "P t"
proof (induction t)
  case (Settled out)
  show ?case by (rule assms(1))
next
  case (Segment eff k)
  show ?case by (rule assms(2)) (rule Segment, rule rangeI, rule rangeI)
qed

lemma trace_await_alone [simp]: "trace (snd (await_alone t w)) = trace w"
  by (induction t arbitrary: w rule: task_induct) simp_all

lemma quiet_await_alone: "quiet_task t \<Longrightarrow> observers (snd (await_alone t w)) = observers w"
  by (induction t arbitrary: w rule: task_induct) (simp_all add: observers_run_segment)

lemma sequential_body_Normal: "\<exists>w'. sequential_body env x r w = Normal w'"
  by (simp add: sequential_body_def try_catch_def resume_def async_handler_def console_error_def
      Let_def split: prod.splits option.splits)

lemma sequential_body_trace:
  "\<exists>out. trace (state_of (sequential_body env x r w))
      = trace w @ [Invoked r x, Completed r out]
          @ (case out of None \<Rightarrow> []
             | Some e \<Rightarrow> [ErrorLine (''Error notifying async observer '' @ getId (env r) @ '':'') e])"
proof -
  obtain t w1 where c: "call_updateAsync env x r w = (t, w1)" by (cases "call_updateAsync env x r w")
  obtain out w2 where a: "await_alone t w1 = (out, w2)" by (cases "await_alone t w1")
  have "trace w1 = trace w @ [Invoked r x]" using trace_call_updateAsync[of env x r w] c by simp
  moreover have "trace w2 = trace w1" using trace_await_alone[of t w1] a by simp
  ultimately show ?thesis using c a
    by (intro exI[of _ out])
      (simp add: sequential_body_def try_catch_def resume_def async_handler_def console_error_def
        Let_def split: option.splits)
qed

lemma sequential_body_observers:
  assumes "async_quiet (env r)"
  shows "observers (state_of (sequential_body env x r w)) = observers w"
proof -
  obtain t w1 where c: "call_updateAsync env x r w = (t, w1)" by (cases "call_updateAsync env x r w")
  obtain out w2 where a: "await_alone t w1 = (out, w2)" by (cases "await_alone t w1")
  from quiet_call_updateAsync[of env r x w] assms c
  have "observers w1 = observers w" "quiet_task t" by simp_all
  moreover from quiet_await_alone[OF \<open>quiet_task t\<close>, of w1] a have "observers w2 = observers w1" by simp
  ultimately show ?thesis using c a
    by (simp add: sequential_body_def try_catch_def resume_def async_handler_def console_error_def
        Let_def split: option.splits)
qed

lemma sequential_body_events:
  "\<exists>evs. trace (state_of (sequential_body env x r w)) = trace w @ evs
      \<and> one_at_a_time None evs \<and> invocations evs = [(r, x)] \<and> completions evs = [r]"
proof -
  from sequential_body_trace[of env x r w] obtain out where
    "trace (state_of (sequential_body env x r w))
      = trace w @ [Invoked r x, Completed r out]
          @ (case out of None \<Rightarrow> []
             | Some e \<Rightarrow> [ErrorLine (''Error notifying async observer '' @ getId (env r) @ '':'') e])"
    by blast
  then show ?thesis
    by (intro exI[of _ "[Invoked r x, Completed r out]
          @ (case out of None \<Rightarrow> []
             | Some e \<Rightarrow> [ErrorLine (''Error notifying async observer '' @ getId (env r) @ '':'') e])"])
      (simp split: option.splits)
qed


lemma Array_forEach_sequential:
  "\<exists>w' evs. Array_forEach (sequential_body env x) rs w = Normal w'
      \<and> trace w' = trace w @ evs \<and> invocations evs = map (\<lambda>r. (r, x)) rs
      \<and> completions evs = rs \<and> one_at_a_time None evs"
proof (induction rs arbitrary: w)
  case Nil
  show ?case by simp
next
  case (Cons r rs)
  obtain w1 where w1: "sequential_body env x r w = Normal w1"
    using sequential_body_Normal[of env x r w] by blast
  from sequential_body_events[of env x r w] w1 obtain e1
    where e1: "trace w1 = trace w @ e1" "invocations e1 = [(r, x)]" "completions e1 = [r]"
      "one_at_a_time None e1" by auto
  from Cons[of w1] obtain w' evs where
    "Array_forEach (sequential_body env x) rs w1 = Normal w'"
    "trace w' = trace w1 @ evs" "invocations evs = map (\<lambda>r. (r, x)) rs"
    "completions evs = rs" "one_at_a_time None evs" by blast
  with w1 e1 show ?case
    by (intro exI[of _ w'] exI[of _ "e1 @ evs"]) (simp add: one_at_a_time_append)
qed

lemma Array_forEach_sequential_quiet:
  assumes "\<And>r. r \<in> set rs \<Longrightarrow> async_quiet (env r)"
  shows "observers (state_of (Array_forEach (sequential_body env x) rs w)) = observers w"
  using assms
proof (induction rs arbitrary: w)
  case Nil
  show ?case by simp
next
  case (Cons r rs)
  obtain w1 where w1: "sequential_body env x r w = Normal w1"
    using sequential_body_Normal[of env x r w] by blast
  have "async_quiet (env r)" using Cons.prems by simp
  then have "observers w1 = observers w"
    using sequential_body_observers[of env r x w] w1 by simp
  moreover have "observers (state_of (Array_forEach (sequential_body env x) rs w1)) = observers w1"
    using Cons.prems by (intro Cons.IH) simp
  ultimately show ?case using w1 by simp
qed

lemma notifyObserversSequentially_quiet:
  assumes "\<forall>r. hasObserver w r \<longrightarrow> async_quiet (env r)"
  shows "notifyObserversSequentially env x w
      = Some (Array_forEach (sequential_body env x) (Set_values (observers w)) w)"
proof -
  have "Set_forEach (sequential_body env x) 0 w
      = Some (Array_forEach (sequential_body env x) (Set_values (drop 0 (observers w))) w)"
  proof (rule Set_forEach_snapshot[where R = "set (Set_values (observers w))" and D = False])
    fix r w'
    assume "r \<in> set (Set_values (observers w))"
    then have "async_quiet (env r)" using assms by (simp add: hasObserver_def Set_has_values)
    then show "observers (state_of (sequential_body env x r w')) = observers w'
        \<or> False \<and> observers (state_of (sequential_body env x r w')) = Set_delete r (observers w')"
      by (simp add: sequential_body_observers)
  qed simp_all
  then show ?thesis by (simp add: notifyObserversSequentially_def)
qed














lemma quiet_task_adds_none: "quiet_task t \<Longrightarrow> task_adds_none t"
  by (induction t rule: task_induct) simp_all

lemma async_quiet_adds_none: "async_quiet ob \<Longrightarrow> async_adds_none ob"
  by (simp add: async_quiet_def async_adds_none_def quiet_task_adds_none)

subsection \<open>The parallel notification\<close>

lemma Array_map_async_events:
  "Array_map_async env x rs w = (ps, w') \<Longrightarrow>
   map fst ps = rs \<and> trace w' = trace w @ map (\<lambda>r. Invoked r x) rs"
proof (induction rs arbitrary: w ps w')
  case Nil
  then show ?case by simp
next
  case (Cons r rs)
  obtain t w1 where c: "call_updateAsync env x r w = (t, w1)" by (cases "call_updateAsync env x r w")
  obtain ps' w2 where m: "Array_map_async env x rs w1 = (ps', w2)"
    by (cases "Array_map_async env x rs w1")
  from Cons.prems c m have ps: "ps = (r, t) # ps'" and w': "w' = w2" by simp_all
  from trace_call_updateAsync[of env x r w] c have "trace w1 = trace w @ [Invoked r x]" by simp
  with Cons.IH[OF m] ps w' show ?case by simp
qed

lemma Array_map_async_quiet:
  "(\<And>r. r \<in> set rs \<Longrightarrow> async_quiet (env r)) \<Longrightarrow> Array_map_async env x rs w = (ps, w') \<Longrightarrow>
   observers w' = observers w \<and> (\<forall>p \<in> set ps. quiet_task (snd p))"
proof (induction rs arbitrary: w ps w')
  case Nil
  then show ?case by simp
next
  case (Cons r rs)
  obtain t w1 where c: "call_updateAsync env x r w = (t, w1)" by (cases "call_updateAsync env x r w")
  obtain ps' w2 where m: "Array_map_async env x rs w1 = (ps', w2)"
    by (cases "Array_map_async env x rs w1")
  from Cons.prems(2) c m have ps: "ps = (r, t) # ps'" and w': "w' = w2" by simp_all
  have "async_quiet (env r)" using Cons.prems(1) by simp
  with quiet_call_updateAsync[of env r x w] c have "observers w1 = observers w" "quiet_task t"
    by simp_all
  moreover have "observers w2 = observers w1 \<and> (\<forall>p \<in> set ps'. quiet_task (snd p))"
  proof (rule Cons.IH[OF _ m])
    fix r' assume "r' \<in> set rs"
    then show "async_quiet (env r')" using Cons.prems(1) by simp
  qed
  ultimately show ?case using ps w' by simp
qed

lemma wrapper_resumes:
  "\<exists>w'. try_catch (resume r out w) (async_handler env r) = Normal w'
     \<and> observers w' = observers w
     \<and> (\<exists>evs. trace w' = trace w @ Completed r out # evs \<and> invocations evs = []
            \<and> completions evs = [])"
  by (cases out)
    (simp_all add: try_catch_def resume_def async_handler_def console_error_def Let_def)

lemma Promise_all_events:
  "\<exists>w' evs. Promise_all env sched pending w = Normal w' \<and> trace w' = trace w @ evs
     \<and> invocations evs = [] \<and> mset (completions evs) = mset (map fst pending)"
proof (induction env sched pending w rule: Promise_all.induct)
  case (1 env sched pending w)
  let ?i = "pick sched (length pending)"
  show ?case
  proof (cases "pending = []")
    case True
    then show ?thesis by (subst Promise_all.simps) simp
  next
    case False
    then have lt: "?i < length pending" by (simp add: pick_less)
    obtain r t where rt: "pending ! ?i = (r, t)" by (cases "pending ! ?i")
    show ?thesis
    proof (cases t)
      case (Settled out)
      let ?rest = "take ?i pending @ drop (Suc ?i) pending"
      from wrapper_resumes[of r out w env] obtain w1 e1 where
        w1: "try_catch (resume r out w) (async_handler env r) = Normal w1"
        and e1: "trace w1 = trace w @ Completed r out # e1" "invocations e1 = []"
          "completions e1 = []" by blast
      from "1.IH"(1)[OF False rt[symmetric] Settled w1] obtain w' evs where
        r: "Promise_all env (tl sched) ?rest w1 = Normal w'" "trace w' = trace w1 @ evs"
          "invocations evs = []" "mset (completions evs) = mset (map fst ?rest)" by blast
      have "mset (map fst pending) = add_mset r (mset (map fst ?rest))"
        using mset_remove_nth[of ?i "map fst pending"] lt rt by (simp add: take_map drop_map)
      with r e1 have "trace w' = trace w @ (Completed r out # e1 @ evs)
          \<and> invocations (Completed r out # e1 @ evs) = []
          \<and> mset (completions (Completed r out # e1 @ evs)) = mset (map fst pending)"
        by simp
      moreover have "Promise_all env sched pending w = Normal w'"
        using False rt Settled w1 r(1) by (subst Promise_all.simps) simp
      ultimately show ?thesis by blast
    next
      case (Segment eff k)
      let ?next = "pending[?i := (r, k (heap w) (observers w))]"
      from "1.IH"(2)[OF False rt[symmetric] Segment] obtain w' evs where
        r: "Promise_all env (tl sched) ?next (run_segment eff w) = Normal w'"
          "trace w' = trace (run_segment eff w) @ evs"
          "invocations evs = []" "mset (completions evs) = mset (map fst ?next)" by blast
      have "map fst ?next = (map fst pending)[?i := r]" by (simp add: map_update)
      also have "\<dots> = map fst pending" using lt rt by (simp add: list_update_same_conv)
      finally have "mset (completions evs) = mset (map fst pending)" using r(4) by simp
      moreover have "Promise_all env sched pending w = Normal w'"
        using False rt Segment r(1) by (subst Promise_all.simps) simp
      ultimately show ?thesis using r(2,3) by auto
    qed
  qed
qed

lemma Promise_all_quiet:
  "\<forall>p \<in> set pending. quiet_task (snd p) \<Longrightarrow>
   observers (state_of (Promise_all env sched pending w)) = observers w"
proof (induction env sched pending w rule: Promise_all.induct)
  case (1 env sched pending w)
  let ?i = "pick sched (length pending)"
  show ?case
  proof (cases "pending = []")
    case True
    then show ?thesis by (subst Promise_all.simps) simp
  next
    case False
    then have lt: "?i < length pending" by (simp add: pick_less)
    obtain r t where rt: "pending ! ?i = (r, t)" by (cases "pending ! ?i")
    from lt rt "1.prems" have qt: "quiet_task t" by (metis nth_mem snd_conv)
    show ?thesis
    proof (cases t)
      case (Settled out)
      let ?rest = "take ?i pending @ drop (Suc ?i) pending"
      from wrapper_resumes[of r out w env] obtain w1 where
        w1: "try_catch (resume r out w) (async_handler env r) = Normal w1"
        and o1: "observers w1 = observers w" by blast
      have "\<forall>p \<in> set ?rest. quiet_task (snd p)"
        using "1.prems" by (auto dest: in_set_takeD in_set_dropD)
      from "1.IH"(1)[OF False rt[symmetric] Settled w1 this]
      have "observers (state_of (Promise_all env (tl sched) ?rest w1)) = observers w1" .
      moreover have "Promise_all env sched pending w = Promise_all env (tl sched) ?rest w1"
        using False rt Settled w1 by (subst Promise_all.simps) simp
      ultimately show ?thesis using o1 by simp
    next
      case (Segment eff k)
      let ?next = "pending[?i := (r, k (heap w) (observers w))]"
      from qt Segment have q: "set_after (snd (eff (heap w) (observers w))) (observers w) = observers w"
        "quiet_task (k (heap w) (observers w))" by simp_all
      have "\<forall>p \<in> set ?next. quiet_task (snd p)"
        using "1.prems" q(2) by (auto dest!: set_update_subset_insert[THEN subsetD])
      from "1.IH"(2)[OF False rt[symmetric] Segment this]
      have "observers (state_of (Promise_all env (tl sched) ?next (run_segment eff w)))
          = observers (run_segment eff w)" .
      moreover have "Promise_all env sched pending w
          = Promise_all env (tl sched) ?next (run_segment eff w)"
        using False rt Segment by (subst Promise_all.simps) simp
      ultimately show ?thesis using q(1) by (simp add: observers_run_segment)
    qed
  qed
qed

lemma Promise_all_Nil: "Promise_all env sched [] w = Normal w"
  by (subst Promise_all.simps) simp

lemma Promise_all_Settled:
  "pending \<noteq> [] \<Longrightarrow> pending ! pick sched (length pending) = (r, Settled out) \<Longrightarrow>
   Promise_all env sched pending w =
     (case try_catch (resume r out w) (async_handler env r) of
        Throw err w' \<Rightarrow> Throw err w'
      | Normal w' \<Rightarrow>
          Promise_all env (tl sched)
            (take (pick sched (length pending)) pending
               @ drop (Suc (pick sched (length pending))) pending) w')"
  by (subst Promise_all.simps) simp

lemma Promise_all_Segment:
  "pending \<noteq> [] \<Longrightarrow> pending ! pick sched (length pending) = (r, Segment eff k) \<Longrightarrow>
   Promise_all env sched pending w =
     Promise_all env (tl sched)
       (pending[pick sched (length pending) := (r, k (heap w) (observers w))])
       (run_segment eff w)"
  by (subst Promise_all.simps) simp

lemma invocations_map_Invoked [simp]: "invocations (map (\<lambda>r. Invoked r x) rs) = map (\<lambda>r. (r, x)) rs"
  by (induction rs) simp_all

lemma completions_map_Invoked [simp]: "completions (map (\<lambda>r. Invoked r x) rs) = []"
  by (induction rs) simp_all

lemma async_notifyObservers_events:
  "\<exists>w' evs. async_notifyObservers env sched x w = Normal w'
     \<and> trace w' = trace w @ map (\<lambda>r. Invoked r x) (Set_values (observers w)) @ evs
     \<and> invocations evs = [] \<and> mset (completions evs) = mset (Set_values (observers w))"
proof -
  obtain ps w1 where m: "Array_map_async env x (Set_values (observers w)) w = (ps, w1)"
    by (cases "Array_map_async env x (Set_values (observers w)) w")
  from Array_map_async_events[OF m] have ps: "map fst ps = Set_values (observers w)"
    and t1: "trace w1 = trace w @ map (\<lambda>r. Invoked r x) (Set_values (observers w))" by simp_all
  from Promise_all_events[of env sched ps w1] obtain w' evs where
    "Promise_all env sched ps w1 = Normal w'" "trace w' = trace w1 @ evs"
    "invocations evs = []" "mset (completions evs) = mset (map fst ps)" by blast
  with m ps t1 show ?thesis by (simp add: async_notifyObservers_def)
qed

lemma async_notifyObservers_quiet:
  assumes "\<forall>r. hasObserver w r \<longrightarrow> async_quiet (env r)"
  shows "observers (state_of (async_notifyObservers env sched x w)) = observers w"
proof -
  obtain ps w1 where m: "Array_map_async env x (Set_values (observers w)) w = (ps, w1)"
    by (cases "Array_map_async env x (Set_values (observers w)) w")
  have "observers w1 = observers w \<and> (\<forall>p \<in> set ps. quiet_task (snd p))"
  proof (rule Array_map_async_quiet[OF _ m])
    fix r assume "r \<in> set (Set_values (observers w))"
    then show "async_quiet (env r)" using assms by (simp add: hasObserver_def Set_has_values)
  qed
  with Promise_all_quiet[of ps env sched w1] m show ?thesis
    by (simp add: async_notifyObservers_def)
qed

subsection \<open>The filter\<close>

lemma Set_has_add_iff: "Set_has (Set_add a S) e = (e = a \<or> Set_has S e)"
  by (auto simp: Set_add_def Set_has_def)

lemma Set_has_foldl_add:
  "Set_has (foldl (\<lambda>S e. Set_add e S) S0 xs) e = (Set_has S0 e \<or> e \<in> set xs)"
  by (induction xs arbitrary: S0) (auto simp: Set_has_add_iff)

lemma Set_has_new: "Set_has (Set_new xs) e = (e \<in> set xs)"
  by (simp add: Set_new_def Set_has_foldl_add) (simp add: Set_has_def)

lemma EventFilter_update_dropped:
  "type e \<notin> set allowed \<Longrightarrow>
   EventFilter_update env now (EventFilter_new ident allowed) e w = Some (Normal w)"
  by (simp add: EventFilter_update_def EventFilter_new_def Set_has_new)

lemma EventFilter_update_passed:
  "type e \<in> set allowed \<Longrightarrow>
   EventFilter_update env now (EventFilter_new ident allowed) e w
     = notifyObservers env
         \<lparr>type = type e, data = data e, timestamp = now,
          source = Some (''filtered-'' @ template_of (source e))\<rparr>
         (console_log (''['' @ ident @ ''] Filtering event: '' @ type e) w)"
  by (simp add: EventFilter_update_def EventFilter_new_def Set_has_new emit_def)

lemma notifyObservers_after_log:
  assumes "\<forall>r. hasObserver w r \<longrightarrow> quiet (env r)"
  shows "\<exists>w' evs. notifyObservers env x (console_log msg w) = Some (Normal w')
      \<and> trace w' = trace w @ LogLine msg # evs
      \<and> invocations evs = map (\<lambda>r. (r, x)) (Set_values (observers w))"
proof -
  let ?w = "console_log msg w"
  have o: "observers ?w = observers w" and t: "trace ?w = trace w @ [LogLine msg]"
    by (simp_all add: console_log_def)
  have q: "\<forall>r. hasObserver ?w r \<longrightarrow> quiet (env r)"
    using assms o by (simp add: hasObserver_def)
  from notify_snapshot_events[of env x ?w] obtain w' evs where
    "notify_snapshot env x ?w = Normal w'" "trace w' = trace ?w @ evs"
    "invocations evs = map (\<lambda>r. (r, x)) (Set_values (observers ?w))" by blast
  with notifyObservers_quiet[OF q, of x] o t show ?thesis by simp
qed

subsection \<open>The engines on the observers of the examples\<close>

lemma sequential_example:
  "notifyObserversSequentially (\<lambda>r. if r = 0 then async_failing ''A'' else AsyncProcessor ''B'')
      (7 :: nat) (world_of [Some 0, Some 1])
   = Some (Normal \<lparr>observers = [Some 0, Some 1], heap = [],
        trace = [Invoked 0 7, Completed 0 (Some (Error ''boom'')),
                 ErrorLine ''Error notifying async observer A:'' (Error ''boom''),
                 Invoked 1 7, Completed 1 None]\<rparr>)"
  by (simp add: notifyObserversSequentially_def Set_forEach.simps sequential_body_def
      call_updateAsync_def try_catch_def resume_def async_handler_def console_error_def
      run_segment_def async_failing_def AsyncProcessor_def world_of_def Let_def)

lemma parallel_example:
  "async_notifyObservers (\<lambda>r. if r = 0 then async_failing ''A'' else AsyncProcessor ''B'')
      [1, 0] (7 :: nat) (world_of [Some 0, Some 1])
   = Normal \<lparr>observers = [Some 0, Some 1], heap = [],
        trace = [Invoked 0 7, Invoked 1 7, Completed 0 (Some (Error ''boom'')),
                 ErrorLine ''Error notifying async observer A:'' (Error ''boom''),
                 Completed 1 None]\<rparr>"
  by (simp add: async_notifyObservers_def Promise_all_Nil Promise_all_Settled Promise_all_Segment pick_def
      call_updateAsync_def try_catch_def resume_def async_handler_def console_error_def
      run_segment_def async_failing_def AsyncProcessor_def world_of_def Let_def)

lemma parallel_subscriber_example:
  "async_notifyObservers (\<lambda>r. if r = 0 then async_subscriber 1 else AsyncProcessor ''B'')
      [] (7 :: nat) (world_of [Some 0])
   = Normal \<lparr>observers = [Some 0, Some 1], heap = [],
        trace = [Invoked 0 7, Completed 0 None]\<rparr>"
  by (simp add: async_notifyObservers_def Promise_all_Nil Promise_all_Settled Promise_all_Segment
      pick_def call_updateAsync_def try_catch_def resume_def async_handler_def console_error_def
      run_segment_def async_subscriber_def AsyncProcessor_def world_of_def Let_def
      addObserver_def Set_add_def Set_has_def)

lemma sequential_subscriber_example:
  "notifyObserversSequentially (\<lambda>r. if r = 0 then async_subscriber 1 else AsyncProcessor ''B'')
      (7 :: nat) (world_of [Some 0])
   = Some (Normal \<lparr>observers = [Some 0, Some 1], heap = [],
        trace = [Invoked 0 7, Completed 0 None, Invoked 1 7, Completed 1 None]\<rparr>)"
  by (simp add: notifyObserversSequentially_def Set_forEach.simps sequential_body_def
      call_updateAsync_def try_catch_def resume_def async_handler_def console_error_def
      run_segment_def async_subscriber_def AsyncProcessor_def world_of_def Let_def
      addObserver_def Set_add_def Set_has_def)

lemma parallel_overlaps:
  "\<not> one_at_a_time None (trace (state_of
       (async_notifyObservers (\<lambda>r. AsyncProcessor ''P'') [] (7 :: nat)
          (world_of [Some 0, Some 1]))))"
  by (simp add: async_notifyObservers_def Promise_all_Nil Promise_all_Settled Promise_all_Segment
      pick_def call_updateAsync_def try_catch_def resume_def async_handler_def console_error_def
      run_segment_def AsyncProcessor_def world_of_def Let_def)

section \<open>The claims\<close>









text \<open>
  C4. \<open>notifyObservers\<close> walks the live Set, not a copy. The counterexample: an observer
  that subscribes another one during the call has it notified in the same call, and an
  observer that unsubscribes one the walk has not reached has it skipped; the walk over
  a copy does neither.
\<close>

theorem live_walk_counterexample:
  "notifyObservers (\<lambda>r. if r = 0 then subscriber 1 else recorder ''B'') () (world_of [Some 0])
     = Some (Normal \<lparr>observers = [Some 0, Some 1], heap = [()],
          trace = [Invoked 0 (), Invoked 1 ()]\<rparr>)
   \<and> notify_snapshot (\<lambda>r. if r = 0 then subscriber 1 else recorder ''B'') () (world_of [Some 0])
     = Normal \<lparr>observers = [Some 0, Some 1], heap = [], trace = [Invoked 0 ()]\<rparr>
   \<and> notifyObservers (\<lambda>r. if r = 0 then unsubscriber 1 else recorder ''B'') ()
        (world_of [Some 0, Some 1])
     = Some (Normal \<lparr>observers = [Some 0, None], heap = [], trace = [Invoked 0 ()]\<rparr>)
   \<and> notify_snapshot (\<lambda>r. if r = 0 then unsubscriber 1 else recorder ''B'') ()
        (world_of [Some 0, Some 1])
     = Normal \<lparr>observers = [Some 0, None], heap = [()],
          trace = [Invoked 0 (), Invoked 1 ()]\<rparr>"
  by (simp add: notifyObservers_def notify_snapshot_def Set_forEach.simps notify_callback_def
      call_update_def try_catch_def console_error_def perform_all_def addObserver_def
      removeObserver_def Set_add_def Set_has_def Set_delete_def world_of_def subscriber_def
      unsubscriber_def recorder_def)

text \<open>
  C4, as amended. The walk is over the live Set. Whenever \<open>notifyObservers\<close> returns, it
  returns normally, every call of \<open>update\<close> it has made carried the data, and every
  observer registered at that moment has been called in this call, whether it was
  registered when the call started or subscribed by a callback during it. When the Set
  is well formed and each callback leaves the registration set alone or takes out at
  most the observer being notified, the live walk is the walk over the copy taken at the
  start of the call: exactly the observers registered then are called, once each and in
  order, and the observers taken out are missing from the next call only.
\<close>

theorem live_walk:
  "(\<forall>c. notifyObservers env x w = Some c \<longrightarrow>
      (\<exists>w' evs. c = Normal w' \<and> trace w' = trace w @ evs
         \<and> snd ` set (invocations evs) \<subseteq> {x}
         \<and> (\<forall>r. hasObserver w' r \<longrightarrow> (r, x) \<in> set (invocations evs))))
   \<and> (Set_ok (observers w) \<and> (\<forall>r. hasObserver w r \<longrightarrow> unsubscribes_at_most r (env r)) \<longrightarrow>
      notifyObservers env x w = Some (notify_snapshot env x w)
      \<and> (\<exists>w' evs. notifyObservers env x w = Some (Normal w') \<and> trace w' = trace w @ evs
            \<and> invocations evs = map (\<lambda>r. (r, x)) (Set_values (observers w))
            \<and> set (Set_values (observers w')) \<subseteq> set (Set_values (observers w))))"
proof (intro conjI allI impI)
  fix c
  assume "notifyObservers env x w = Some c"
  then show "\<exists>w' evs. c = Normal w' \<and> trace w' = trace w @ evs
         \<and> snd ` set (invocations evs) \<subseteq> {x}
         \<and> (\<forall>r. hasObserver w' r \<longrightarrow> (r, x) \<in> set (invocations evs))"
    by (rule notifyObservers_live)
next
  assume a: "Set_ok (observers w) \<and> (\<forall>r. hasObserver w r \<longrightarrow> unsubscribes_at_most r (env r))"
  then show eq: "notifyObservers env x w = Some (notify_snapshot env x w)"
    by (intro notifyObservers_unsubscribing) simp_all
  from notify_snapshot_events[of env x w] obtain w' evs where
    s: "notify_snapshot env x w = Normal w'" "trace w' = trace w @ evs"
      "invocations evs = map (\<lambda>r. (r, x)) (Set_values (observers w))" by blast
  have "set (Set_values (observers (state_of (notify_snapshot env x w))))
      \<subseteq> set (Set_values (observers w))"
    unfolding notify_snapshot_def
    using a by (intro Array_forEach_notify_unsubscribing) (simp add: hasObserver_def Set_has_values)
  with s eq show "\<exists>w' evs. notifyObservers env x w = Some (Normal w') \<and> trace w' = trace w @ evs
            \<and> invocations evs = map (\<lambda>r. (r, x)) (Set_values (observers w))
            \<and> set (Set_values (observers w')) \<subseteq> set (Set_values (observers w))"
    by auto
qed

theorem live_walk_witness:
  "(\<exists>w' evs. notifyObservers (\<lambda>r. if r = 0 then subscriber 1 else recorder ''B'') (7 :: nat)
        (world_of [Some 0]) = Some (Normal w')
      \<and> trace w' = evs \<and> (1, 7) \<in> set (invocations evs))
   \<and> notifyObservers once (7 :: nat) (world_of [Some 0, Some 1])
       = Some (notify_snapshot once 7 (world_of [Some 0, Some 1]))
   \<and> (\<exists>w' evs. notifyObservers once (7 :: nat) (world_of [Some 0, Some 1]) = Some (Normal w')
         \<and> trace w' = evs \<and> invocations evs = [(0, 7), (1, 7)]
         \<and> set (Set_values (observers w')) \<subseteq> {0, 1})"
proof -
  let ?env = "\<lambda>r. if r = 0 then subscriber 1 else recorder ''B'' :: (nat, nat list) Observer"
  have run: "notifyObservers ?env 7 (world_of [Some 0])
      = Some (Normal \<lparr>observers = [Some 0, Some 1], heap = [7],
           trace = [Invoked 0 7, Invoked 1 7]\<rparr>)"
    by (simp add: notifyObservers_def Set_forEach.simps notify_callback_def call_update_def
        try_catch_def addObserver_def Set_add_def Set_has_def world_of_def subscriber_def
        recorder_def)
  from live_walk[THEN conjunct1, rule_format, OF run]
  have 1: "\<exists>w' evs. notifyObservers ?env 7 (world_of [Some 0]) = Some (Normal w')
      \<and> trace w' = evs \<and> (1, 7) \<in> set (invocations evs)"
    unfolding run by (auto simp: world_of_def hasObserver_def Set_has_def)
  have h: "Set_ok (observers (world_of [Some 0, Some 1] :: (nat, nat list) world))
      \<and> (\<forall>r. hasObserver (world_of [Some 0, Some 1] :: (nat, nat list) world) r \<longrightarrow>
            unsubscribes_at_most r (once r :: (nat, nat list) Observer))"
    by (simp add: Set_ok_def world_of_def unsubscribes_at_most_def once_def set_after_def
        removeObserver_def)
  note inst = live_walk[where x = "7 :: nat", THEN conjunct2, THEN mp, OF h]
  from inst[THEN conjunct2] obtain w' evs where
    r: "notifyObservers once (7 :: nat) (world_of [Some 0, Some 1]) = Some (Normal w')"
      "trace w' = trace (world_of [Some 0, Some 1] :: (nat, nat list) world) @ evs"
      "invocations evs = map (\<lambda>r. (r, 7))
          (Set_values (observers (world_of [Some 0, Some 1] :: (nat, nat list) world)))"
      "set (Set_values (observers w'))
          \<subseteq> set (Set_values (observers (world_of [Some 0, Some 1] :: (nat, nat list) world)))"
    by blast
  have 2: "\<exists>w' evs. notifyObservers once (7 :: nat) (world_of [Some 0, Some 1]) = Some (Normal w')
         \<and> trace w' = evs \<and> invocations evs = [(0, 7), (1, 7)]
         \<and> set (Set_values (observers w')) \<subseteq> {0, 1}"
    using r(2-4) by (intro exI[of _ w'] exI[of _ evs] conjI r(1)) (auto simp: world_of_def)
  from 1 2 inst[THEN conjunct1] show ?thesis by blast
qed





text \<open>
  C7. An \<open>EventFilter\<close> made with the allowed types \<open>allowed\<close>. An event whose type is not
  allowed leaves everything as it was: no downstream observer is called, nothing is
  logged, nothing is thrown. An event whose type is allowed makes one call of the
  downstream \<open>notifyObservers\<close>, with an event of the same type and data; when the
  downstream observers leave their registration set alone, each of them is called once
  with that event.
\<close>

theorem filter_correct:
  "(type e \<notin> set allowed \<longrightarrow>
      EventFilter_update env now (EventFilter_new ident allowed) e w = Some (Normal w))
   \<and> (type e \<in> set allowed \<longrightarrow>
      (\<exists>e'. type e' = type e \<and> data e' = data e
         \<and> EventFilter_update env now (EventFilter_new ident allowed) e w
             = notifyObservers env e'
                 (console_log (''['' @ ident @ ''] Filtering event: '' @ type e) w)
         \<and> ((\<forall>r. hasObserver w r \<longrightarrow> quiet (env r)) \<longrightarrow>
              (\<exists>w' evs. EventFilter_update env now (EventFilter_new ident allowed) e w
                    = Some (Normal w')
                 \<and> trace w' = trace w @ LogLine (''['' @ ident @ ''] Filtering event: '' @ type e) # evs
                 \<and> invocations evs = map (\<lambda>r. (r, e')) (Set_values (observers w))))))"
proof (intro conjI impI)
  assume "type e \<notin> set allowed"
  then show "EventFilter_update env now (EventFilter_new ident allowed) e w = Some (Normal w)"
    by (rule EventFilter_update_dropped)
next
  assume a: "type e \<in> set allowed"
  let ?e' = "\<lparr>type = type e, data = data e, timestamp = now,
          source = Some (''filtered-'' @ template_of (source e))\<rparr>"
  let ?msg = "''['' @ ident @ ''] Filtering event: '' @ type e"
  have p: "EventFilter_update env now (EventFilter_new ident allowed) e w
      = notifyObservers env ?e' (console_log ?msg w)"
    using a by (rule EventFilter_update_passed)
  have "(\<forall>r. hasObserver w r \<longrightarrow> quiet (env r)) \<longrightarrow>
      (\<exists>w' evs. EventFilter_update env now (EventFilter_new ident allowed) e w = Some (Normal w')
         \<and> trace w' = trace w @ LogLine ?msg # evs
         \<and> invocations evs = map (\<lambda>r. (r, ?e')) (Set_values (observers w)))"
    unfolding p using notifyObservers_after_log[of w env ?e' ?msg] by blast
  with p show "\<exists>e'. type e' = type e \<and> data e' = data e
         \<and> EventFilter_update env now (EventFilter_new ident allowed) e w
             = notifyObservers env e' (console_log ?msg w)
         \<and> ((\<forall>r. hasObserver w r \<longrightarrow> quiet (env r)) \<longrightarrow>
              (\<exists>w' evs. EventFilter_update env now (EventFilter_new ident allowed) e w
                    = Some (Normal w')
                 \<and> trace w' = trace w @ LogLine ?msg # evs
                 \<and> invocations evs = map (\<lambda>r. (r, e')) (Set_values (observers w))))"
    by (intro exI[of _ ?e']) simp
qed

theorem filter_correct_witness:
  "EventFilter_update (\<lambda>r. recorder ''down'') 5 (EventFilter_new ''F1'' [''error'', ''warning''])
      \<lparr>type = ''info'', data = (), timestamp = 1, source = Some ''app''\<rparr> (world_of [Some 0])
     = Some (Normal (world_of [Some 0]))
   \<and> (\<exists>e' w' evs. type e' = ''error''
        \<and> EventFilter_update (\<lambda>r. recorder ''down'') 5
             (EventFilter_new ''F1'' [''error'', ''warning''])
             \<lparr>type = ''error'', data = (), timestamp = 1, source = Some ''app''\<rparr>
             (world_of [Some 0]) = Some (Normal w')
        \<and> trace w' = LogLine ''[F1] Filtering event: error'' # evs
        \<and> invocations evs = [(0, e')])"
proof -
  have q: "\<forall>r. hasObserver (world_of [Some 0] :: (unit Event, unit Event list) world) r \<longrightarrow>
      quiet ((\<lambda>r. recorder ''down'') r :: (unit Event, unit Event list) Observer)"
    by (simp add: quiet_def recorder_def set_after_def)
  have 1: "EventFilter_update (\<lambda>r. recorder ''down'') 5
      (EventFilter_new ''F1'' [''error'', ''warning''])
      \<lparr>type = ''info'', data = (), timestamp = 1, source = Some ''app''\<rparr> (world_of [Some 0])
     = Some (Normal (world_of [Some 0]))"
    using filter_correct[where e = "\<lparr>type = ''info'', data = (), timestamp = 1, source = Some ''app''\<rparr>"
        and allowed = "[''error'', ''warning'']" and env = "\<lambda>r. recorder ''down''" and now = 5
        and ident = "''F1''" and w = "world_of [Some 0]"]
    by simp
  from filter_correct[where e = "\<lparr>type = ''error'', data = (), timestamp = 1, source = Some ''app''\<rparr>"
        and allowed = "[''error'', ''warning'']" and env = "\<lambda>r. recorder ''down''" and now = 5
        and ident = "''F1''" and w = "world_of [Some 0]", THEN conjunct2] q
  have 2: "\<exists>e' w' evs. type e' = ''error''
        \<and> EventFilter_update (\<lambda>r. recorder ''down'') 5
             (EventFilter_new ''F1'' [''error'', ''warning''])
             \<lparr>type = ''error'', data = (), timestamp = 1, source = Some ''app''\<rparr>
             (world_of [Some 0]) = Some (Normal w')
        \<and> trace w' = LogLine ''[F1] Filtering event: error'' # evs
        \<and> invocations evs = [(0, e')]"
    by (auto simp: world_of_def)
  from 1 2 show ?thesis by blast
qed

text \<open>
  C8. The claim fails where it says that the new source is prefixed with the filter's
  identity: the filter \<open>F1\<close> turns the source \<open>app\<close> into \<open>filtered-app\<close>.
\<close>

theorem filter_source_counterexample:
  "EventFilter_update (\<lambda>r. recorder ''down'') 5 (EventFilter_new ''F1'' [''error''])
      \<lparr>type = ''error'', data = (), timestamp = 1, source = Some ''app''\<rparr> (world_of [Some 0])
     = Some (Normal \<lparr>observers = [Some 0],
          heap = [\<lparr>type = ''error'', data = (), timestamp = 5, source = Some ''filtered-app''\<rparr>],
          trace = [LogLine ''[F1] Filtering event: error'',
                   Invoked 0 \<lparr>type = ''error'', data = (), timestamp = 5,
                              source = Some ''filtered-app''\<rparr>]\<rparr>)
   \<and> \<not> prefix ''F1'' ''filtered-app''"
  by (simp add: EventFilter_update_def EventFilter_new_def Set_new_def Set_add_def Set_has_def
      emit_def console_log_def template_of_def notifyObservers_def Set_forEach.simps
      notify_callback_def call_update_def try_catch_def recorder_def world_of_def)

text \<open>
  C8, as amended. For an event whose type is allowed, the event published downstream has
  the type and the data of the incoming event, the time of the publication, and as its
  source the fixed text \<open>filtered-\<close> followed by the incoming source (\<open>undefined\<close> when
  there is none). The filter's identifier is in the line it logs, not in the event.
\<close>

theorem filter_retags_source:
  assumes "type e \<in> set allowed"
  shows "EventFilter_update env now (EventFilter_new ident allowed) e w
     = notifyObservers env
         \<lparr>type = type e, data = data e, timestamp = now,
          source = Some (''filtered-'' @ template_of (source e))\<rparr>
         (console_log (''['' @ ident @ ''] Filtering event: '' @ type e) w)
   \<and> ((\<forall>r. hasObserver w r \<longrightarrow> quiet (env r)) \<longrightarrow>
        (\<exists>w' evs. EventFilter_update env now (EventFilter_new ident allowed) e w = Some (Normal w')
           \<and> trace w' = trace w @ LogLine (''['' @ ident @ ''] Filtering event: '' @ type e) # evs
           \<and> invocations evs
               = map (\<lambda>r. (r, \<lparr>type = type e, data = data e, timestamp = now,
                               source = Some (''filtered-'' @ template_of (source e))\<rparr>))
                   (Set_values (observers w))))"
proof -
  let ?e' = "\<lparr>type = type e, data = data e, timestamp = now,
          source = Some (''filtered-'' @ template_of (source e))\<rparr>"
  let ?msg = "''['' @ ident @ ''] Filtering event: '' @ type e"
  have p: "EventFilter_update env now (EventFilter_new ident allowed) e w
      = notifyObservers env ?e' (console_log ?msg w)"
    using assms by (rule EventFilter_update_passed)
  moreover have "(\<forall>r. hasObserver w r \<longrightarrow> quiet (env r)) \<longrightarrow>
      (\<exists>w' evs. EventFilter_update env now (EventFilter_new ident allowed) e w = Some (Normal w')
         \<and> trace w' = trace w @ LogLine ?msg # evs
         \<and> invocations evs = map (\<lambda>r. (r, ?e')) (Set_values (observers w)))"
    unfolding p using notifyObservers_after_log[of w env ?e' ?msg] by blast
  ultimately show ?thesis by blast
qed

theorem filter_retags_source_witness:
  "EventFilter_update (\<lambda>r. recorder ''down'') 5 (EventFilter_new ''F1'' [''error'', ''warning''])
      \<lparr>type = ''error'', data = (), timestamp = 1, source = None\<rparr> (world_of [Some 0])
     = notifyObservers (\<lambda>r. recorder ''down'')
         \<lparr>type = ''error'', data = (), timestamp = 5, source = Some ''filtered-undefined''\<rparr>
         (console_log ''[F1] Filtering event: error'' (world_of [Some 0]))
   \<and> (\<exists>w' evs. EventFilter_update (\<lambda>r. recorder ''down'') 5
          (EventFilter_new ''F1'' [''error'', ''warning''])
          \<lparr>type = ''error'', data = (), timestamp = 1, source = None\<rparr> (world_of [Some 0])
        = Some (Normal w')
      \<and> trace w' = LogLine ''[F1] Filtering event: error'' # evs
      \<and> invocations evs
          = [(0, \<lparr>type = ''error'', data = (), timestamp = 5,
                  source = Some ''filtered-undefined''\<rparr>)])"
proof -
  let ?e = "\<lparr>type = ''error'', data = (), timestamp = 1, source = None\<rparr>"
  have a: "type ?e \<in> set [''error'', ''warning'']" by simp
  have q: "\<forall>r. hasObserver (world_of [Some 0] :: (unit Event, unit Event list) world) r \<longrightarrow>
      quiet ((\<lambda>r. recorder ''down'') r :: (unit Event, unit Event list) Observer)"
    by (simp add: quiet_def recorder_def set_after_def)
  note inst = filter_retags_source[OF a, where env = "\<lambda>r. recorder ''down''" and now = 5
        and ident = "''F1''" and w = "world_of [Some 0]"]
  from inst[THEN conjunct1] have 1: "EventFilter_update (\<lambda>r. recorder ''down'') 5
      (EventFilter_new ''F1'' [''error'', ''warning'']) ?e (world_of [Some 0])
     = notifyObservers (\<lambda>r. recorder ''down'')
         \<lparr>type = ''error'', data = (), timestamp = 5, source = Some ''filtered-undefined''\<rparr>
         (console_log ''[F1] Filtering event: error'' (world_of [Some 0]))"
    by (simp add: template_of_def)
  from inst[THEN conjunct2, THEN mp, OF q] obtain w' evs where
    r: "EventFilter_update (\<lambda>r. recorder ''down'') 5
          (EventFilter_new ''F1'' [''error'', ''warning'']) ?e (world_of [Some 0])
        = Some (Normal w')"
      "trace w' = trace (world_of [Some 0] :: (unit Event, unit Event list) world)
          @ LogLine (''['' @ ''F1'' @ ''] Filtering event: '' @ type ?e) # evs"
      "invocations evs = map (\<lambda>r. (r, \<lparr>type = type ?e, data = data ?e, timestamp = 5,
          source = Some (''filtered-'' @ template_of (source ?e))\<rparr>))
          (Set_values (observers (world_of [Some 0] :: (unit Event, unit Event list) world)))"
    by blast
  have 2: "\<exists>w' evs. EventFilter_update (\<lambda>r. recorder ''down'') 5
          (EventFilter_new ''F1'' [''error'', ''warning'']) ?e (world_of [Some 0])
        = Some (Normal w')
      \<and> trace w' = LogLine ''[F1] Filtering event: error'' # evs
      \<and> invocations evs
          = [(0, \<lparr>type = ''error'', data = (), timestamp = 5,
                  source = Some ''filtered-undefined''\<rparr>)]"
    using r(2,3)
    by (intro exI[of _ w'] exI[of _ evs] conjI r(1)) (simp_all add: world_of_def template_of_def)
  from 1 2 show ?thesis by blast
qed

text \<open>
  C9. Registration is idempotent by object identity, on \<open>Observable\<close> and on
  \<open>AsyncObservable\<close>: the second of two \<open>addObserver(o)\<close> in a row changes nothing, so
  the two calls never raise the count by two, and from a notifier that does not hold
  \<open>o\<close> they raise it by exactly one; \<open>removeObserver(o)\<close> of an observer that is not
  registered returns (the methods are total, they have no exception) and leaves the
  whole notifier as it was.
\<close>

theorem registration_idempotent:
  "addObserver obs (addObserver obs w) = addObserver obs w
   \<and> async_addObserver obs (async_addObserver obs w) = async_addObserver obs w
   \<and> getObserverCount (addObserver obs (addObserver obs w)) \<le> getObserverCount w + 1
   \<and> getObserverCount (async_addObserver obs (async_addObserver obs w)) \<le> getObserverCount w + 1
   \<and> (\<not> hasObserver w obs \<longrightarrow>
        getObserverCount (addObserver obs (addObserver obs w)) = getObserverCount w + 1
      \<and> getObserverCount (async_addObserver obs (async_addObserver obs w)) = getObserverCount w + 1
      \<and> removeObserver obs w = w
      \<and> async_removeObserver obs w = w)"
  by (cases "Set_has (observers w) obs")
    (simp_all add: addObserver_def async_addObserver_def removeObserver_def
      async_removeObserver_def getObserverCount_def hasObserver_def Set_add_present
      Set_size_add_absent Set_delete_absent)

theorem registration_idempotent_witness:
  "\<not> hasObserver \<lparr>observers = [Some 1, None], heap = (), trace = ([] :: unit event list)\<rparr> 7
   \<and> getObserverCount (addObserver 7 (addObserver 7
        \<lparr>observers = [Some 1, None], heap = (), trace = ([] :: unit event list)\<rparr>)) = 2
   \<and> removeObserver 7 \<lparr>observers = [Some 1, None], heap = (), trace = ([] :: unit event list)\<rparr>
      = \<lparr>observers = [Some 1, None], heap = (), trace = []\<rparr>"
  using registration_idempotent
    [of 7 "\<lparr>observers = [Some 1, None], heap = (), trace = ([] :: unit event list)\<rparr>"]
  by (simp add: hasObserver_def Set_has_def getObserverCount_def Set_size_def
      addObserver_def async_addObserver_def removeObserver_def async_removeObserver_def
      Set_add_def Set_delete_def)

text \<open>
  C10. The notifications do not change the registration set by themselves: when the
  callbacks of the registered observers leave it alone, the Set after
  \<open>notifyObservers\<close>, \<open>notifyObserversSequentially\<close> or the parallel \<open>notifyObservers\<close>
  is the Set before, with the same members and the same count.
\<close>

theorem notification_frame:
  "((\<forall>r. hasObserver w r \<longrightarrow> quiet (env r)) \<longrightarrow>
      (\<exists>w'. notifyObservers env x w = Some (Normal w') \<and> observers w' = observers w
         \<and> (\<forall>r. hasObserver w' r = hasObserver w r) \<and> getObserverCount w' = getObserverCount w))
   \<and> ((\<forall>r. hasObserver w r \<longrightarrow> async_quiet (aenv r)) \<longrightarrow>
      (\<exists>w'. notifyObserversSequentially aenv x w = Some (Normal w') \<and> observers w' = observers w
         \<and> (\<forall>r. hasObserver w' r = hasObserver w r) \<and> getObserverCount w' = getObserverCount w)
      \<and> (\<exists>w'. async_notifyObservers aenv sched x w = Normal w' \<and> observers w' = observers w
         \<and> (\<forall>r. hasObserver w' r = hasObserver w r) \<and> getObserverCount w' = getObserverCount w))"
proof (intro conjI impI)
  assume q: "\<forall>r. hasObserver w r \<longrightarrow> quiet (env r)"
  from notify_snapshot_events[of env x w] obtain w' where
    s: "notify_snapshot env x w = Normal w'" by blast
  have "observers (state_of (notify_snapshot env x w)) = observers w"
    unfolding notify_snapshot_def
    using q by (intro Array_forEach_notify_quiet) (simp add: hasObserver_def Set_has_values)
  with s notifyObservers_quiet[OF q, of x]
  show "\<exists>w'. notifyObservers env x w = Some (Normal w') \<and> observers w' = observers w
         \<and> (\<forall>r. hasObserver w' r = hasObserver w r) \<and> getObserverCount w' = getObserverCount w"
    by (simp add: hasObserver_def getObserverCount_def)
next
  assume q: "\<forall>r. hasObserver w r \<longrightarrow> async_quiet (aenv r)"
  from Array_forEach_sequential[of aenv x "Set_values (observers w)" w] obtain w' where
    s: "Array_forEach (sequential_body aenv x) (Set_values (observers w)) w = Normal w'" by blast
  have "observers (state_of (Array_forEach (sequential_body aenv x) (Set_values (observers w)) w))
      = observers w"
    using q by (intro Array_forEach_sequential_quiet) (simp add: hasObserver_def Set_has_values)
  with s notifyObserversSequentially_quiet[OF q, of x]
  show "\<exists>w'. notifyObserversSequentially aenv x w = Some (Normal w') \<and> observers w' = observers w
         \<and> (\<forall>r. hasObserver w' r = hasObserver w r) \<and> getObserverCount w' = getObserverCount w"
    by (simp add: hasObserver_def getObserverCount_def)
next
  assume q: "\<forall>r. hasObserver w r \<longrightarrow> async_quiet (aenv r)"
  from async_notifyObservers_events[of aenv sched x w] obtain w' where
    s: "async_notifyObservers aenv sched x w = Normal w'" by blast
  with async_notifyObservers_quiet[OF q, of sched x]
  show "\<exists>w'. async_notifyObservers aenv sched x w = Normal w' \<and> observers w' = observers w
         \<and> (\<forall>r. hasObserver w' r = hasObserver w r) \<and> getObserverCount w' = getObserverCount w"
    by (simp add: hasObserver_def getObserverCount_def)
qed

theorem notification_frame_witness:
  "(\<exists>w'. notifyObservers (\<lambda>r. if r = 0 then failing ''A'' else recorder ''B'') (7 :: nat)
          (world_of [Some 0, None, Some 1]) = Some (Normal w')
       \<and> observers w' = [Some 0, None, Some 1] \<and> getObserverCount w' = 2)
   \<and> (\<exists>w'. notifyObserversSequentially
          (\<lambda>r. if r = 0 then async_failing ''A'' else AsyncProcessor ''B'') (7 :: nat)
          (world_of [Some 0, None, Some 1]) = Some (Normal w')
       \<and> observers w' = [Some 0, None, Some 1] \<and> getObserverCount w' = 2)
   \<and> (\<exists>w'. async_notifyObservers
          (\<lambda>r. if r = 0 then async_failing ''A'' else AsyncProcessor ''B'') [1, 0, 1] (7 :: nat)
          (world_of [Some 0, None, Some 1]) = Normal w'
       \<and> observers w' = [Some 0, None, Some 1] \<and> getObserverCount w' = 2)"
proof -
  have q: "\<forall>r. hasObserver (world_of [Some 0, None, Some 1] :: (nat, nat list) world) r \<longrightarrow>
      quiet ((\<lambda>r. if r = 0 then failing ''A'' else recorder ''B'') r)"
    by (simp add: quiet_def failing_def recorder_def set_after_def)
  have aq: "\<forall>r. hasObserver (world_of [Some 0, None, Some 1] :: (nat, nat list) world) r \<longrightarrow>
      async_quiet ((\<lambda>r. if r = 0 then async_failing ''A'' else AsyncProcessor ''B'') r
        :: (nat, nat list) AsyncObserver)"
    by (simp add: async_quiet_def async_failing_def AsyncProcessor_def set_after_def)
  from notification_frame[where x = "7 :: nat", THEN conjunct1, THEN mp, OF q]
  have 1: "\<exists>w'. notifyObservers (\<lambda>r. if r = 0 then failing ''A'' else recorder ''B'') (7 :: nat)
          (world_of [Some 0, None, Some 1]) = Some (Normal w')
       \<and> observers w' = [Some 0, None, Some 1] \<and> getObserverCount w' = 2"
    by (auto simp: world_of_def getObserverCount_def Set_size_def)
  from notification_frame[where x = "7 :: nat" and sched = "[1, 0, 1]", THEN conjunct2, THEN mp, OF aq]
  have 2: "(\<exists>w'. notifyObserversSequentially
          (\<lambda>r. if r = 0 then async_failing ''A'' else AsyncProcessor ''B'') (7 :: nat)
          (world_of [Some 0, None, Some 1]) = Some (Normal w')
       \<and> observers w' = [Some 0, None, Some 1] \<and> getObserverCount w' = 2)
   \<and> (\<exists>w'. async_notifyObservers
          (\<lambda>r. if r = 0 then async_failing ''A'' else AsyncProcessor ''B'') [1, 0, 1] (7 :: nat)
          (world_of [Some 0, None, Some 1]) = Normal w'
       \<and> observers w' = [Some 0, None, Some 1] \<and> getObserverCount w' = 2)"
    by (auto simp: world_of_def getObserverCount_def Set_size_def)
  from 1 2 show ?thesis by blast
qed

end
